theory Spec2Isabelle
  imports Main
begin

section \<open>Python strings\<close>

text \<open>
  A Python \<^verbatim>\<open>str\<close> is modelled as a \<^typ>\<open>string\<close>; one \<^typ>\<open>char\<close> stands for one
  code point below 256. The functions below are the string methods that
  \<^verbatim>\<open>forum_scraper.py\<close> calls.
\<close>

text \<open>\<^verbatim>\<open>str.isspace\<close> on one character (the white space of the first 256 code points).\<close>

definition isspace :: "char \<Rightarrow> bool" where
  "isspace c = (of_char c \<in> {9, 10, 11, 12, 13, 28, 29, 30, 31, 32, 133, 160 :: nat})"

text \<open>\<^verbatim>\<open>s.strip()\<close>: leading and trailing white space removed.\<close>

definition strip :: "string \<Rightarrow> string" where
  "strip s = rev (dropWhile isspace (rev (dropWhile isspace s)))"

text \<open>\<^verbatim>\<open>s.lower()\<close>, character by character.\<close>

definition lower_char :: "char \<Rightarrow> char" where
  "lower_char c =
     (let n = (of_char c :: nat)
      in if (65 \<le> n \<and> n \<le> 90) \<or> (192 \<le> n \<and> n \<le> 222 \<and> n \<noteq> 215)
         then char_of (n + 32) else c)"

definition lower :: "string \<Rightarrow> string" where
  "lower s = map lower_char s"

text \<open>\<^verbatim>\<open>s.startswith(p)\<close>.\<close>

fun startswith :: "string \<Rightarrow> string \<Rightarrow> bool" where
  "startswith s [] = True"
| "startswith [] (p # ps) = False"
| "startswith (c # cs) (p # ps) = (c = p \<and> startswith cs ps)"

text \<open>\<^verbatim>\<open>sub in s\<close>: \<open>sub\<close> occurs in \<open>s\<close> as a contiguous run.\<close>

fun contains :: "string \<Rightarrow> string \<Rightarrow> bool" where
  "contains [] sub = (sub = [])"
| "contains (c # cs) sub = (startswith (c # cs) sub \<or> contains cs sub)"

text \<open>\<^verbatim>\<open>str(n)\<close> for a non-negative integer: its decimal digits.\<close>

definition digit :: "nat \<Rightarrow> char" where
  "digit d = char_of (48 + d)"

function str_nat :: "nat \<Rightarrow> string" where
  "str_nat n = (if n < 10 then [digit n] else str_nat (n div 10) @ [digit (n mod 10)])"
  by pat_completeness auto
termination
  by (relation "measure (\<lambda>n. n)") auto

section \<open>The parsed document\<close>

text \<open>
  The tree that \<^verbatim>\<open>BeautifulSoup(text, 'html.parser')\<close> builds: a \<open>Tag\<close> has a name, the
  tokens of its \<^verbatim>\<open>class\<close> attribute (bs4 keeps them as a list), its other attributes and
  its contents; a \<open>NavigableString\<close> is a run of text. The document object itself is the
  root \<open>Tag\<close>. Comments and the other special strings, which \<^verbatim>\<open>get_text\<close> leaves out,
  are not part of the tree.
\<close>

datatype node =
    Tag (name: string) (classes: "string list") (attrs: "(string \<times> string) list")
        (contents: "node list")
  | NavigableString string

text \<open>\<^verbatim>\<open>tag.get(key)\<close> and \<^verbatim>\<open>tag.get(key, default)\<close>.\<close>

fun get :: "node \<Rightarrow> string \<Rightarrow> string option" where
  "get (Tag n cls ats kids) key = map_of ats key"
| "get (NavigableString s) key = None"

definition get_default :: "node \<Rightarrow> string \<Rightarrow> string \<Rightarrow> string" where
  "get_default t key dflt = (case get t key of None \<Rightarrow> dflt | Some v \<Rightarrow> v)"

text \<open>All strings below a node, in document order (bs4's \<^verbatim>\<open>_all_strings\<close>).\<close>

fun all_strings :: "node \<Rightarrow> string list" where
  "all_strings (NavigableString s) = [s]"
| "all_strings (Tag n cls ats kids) = concat (map all_strings kids)"

text \<open>\<^verbatim>\<open>tag.text\<close>: the strings joined as they are.\<close>

definition text_of :: "node \<Rightarrow> string" where
  "text_of t = concat (all_strings t)"

text \<open>
  \<^verbatim>\<open>tag.get_text(strip=True)\<close>: every string is stripped, the empty ones are dropped, the
  rest are joined with no separator.
\<close>

definition get_text_strip :: "node \<Rightarrow> string" where
  "get_text_strip t = concat (filter (\<lambda>s. s \<noteq> []) (map strip (all_strings t)))"

subsection \<open>CSS selectors\<close>

text \<open>
  The selectors of the program are compound selectors (a tag name, class names, one
  attribute test) joined by the descendant combinator. A complex selector is the list
  of its compounds, left to right.
\<close>

datatype attr_test =
    AttrEquals string string      \<comment> \<open>\<^verbatim>\<open>[key="value"]\<close>\<close>
  | AttrContains string string    \<comment> \<open>\<^verbatim>\<open>[key*="value"]\<close>\<close>

record compound =
  sel_name :: "string option"
  sel_classes :: "string list"
  sel_attrs :: "attr_test list"

fun attr_holds :: "node \<Rightarrow> attr_test \<Rightarrow> bool" where
  "attr_holds t (AttrEquals k v) = (get t k = Some v)"
| "attr_holds t (AttrContains k v) =
     (case get t k of None \<Rightarrow> False | Some w \<Rightarrow> v \<noteq> [] \<and> contains w v)"

fun match_compound :: "compound \<Rightarrow> node \<Rightarrow> bool" where
  "match_compound c (NavigableString s) = False"
| "match_compound c (Tag n cls ats kids) =
     ((case sel_name c of None \<Rightarrow> True | Some m \<Rightarrow> m = n)
      \<and> list_all (\<lambda>k. k \<in> set cls) (sel_classes c)
      \<and> list_all (attr_holds (Tag n cls ats kids)) (sel_attrs c))"

text \<open>
  \<open>match_ancestors cs ancs\<close>: the compounds \<open>cs\<close> (innermost first) are matched by some
  chain of the ancestors \<open>ancs\<close> (nearest first), each further out than the one before.
\<close>

fun match_ancestors :: "compound list \<Rightarrow> node list \<Rightarrow> bool" where
  "match_ancestors [] ancs = True"
| "match_ancestors (c # cs) [] = False"
| "match_ancestors (c # cs) (a # ancs) =
     ((match_compound c a \<and> match_ancestors cs ancs) \<or> match_ancestors (c # cs) ancs)"

definition match_selector :: "compound list \<Rightarrow> node \<Rightarrow> node list \<Rightarrow> bool" where
  "match_selector sel t ancs =
     (case rev sel of [] \<Rightarrow> False
      | c # cs \<Rightarrow> match_compound c t \<and> match_ancestors cs ancs)"

text \<open>
  The descendants of a node that match, in document order; \<open>ancs\<close> are the ancestors of the
  node, nearest first. The node itself is never a result.
\<close>

fun select_under :: "compound list \<Rightarrow> node list \<Rightarrow> node \<Rightarrow> node list" where
  "select_under sel ancs (NavigableString s) = []"
| "select_under sel ancs (Tag n cls ats kids) =
     concat (map (\<lambda>k. (if match_selector sel k (Tag n cls ats kids # ancs) then [k] else [])
                        @ select_under sel (Tag n cls ats kids # ancs) k) kids)"

text \<open>\<^verbatim>\<open>tag.select(sel)\<close> and \<^verbatim>\<open>tag.select_one(sel)\<close>.\<close>

definition select :: "compound list \<Rightarrow> node \<Rightarrow> node list" where
  "select sel t = select_under sel [] t"

definition select_one :: "compound list \<Rightarrow> node \<Rightarrow> node option" where
  "select_one sel t = (case select sel t of [] \<Rightarrow> None | x # xs \<Rightarrow> Some x)"

text \<open>The selectors that \<^verbatim>\<open>forum_scraper.py\<close> uses.\<close>

definition discussion_link_selector :: "compound list" where
  \<comment> \<open>\<^verbatim>\<open>.topic .d-flex a.w-100.h-100.d-block\<close>\<close>
  "discussion_link_selector =
     [\<lparr>sel_name = None, sel_classes = [''topic''], sel_attrs = []\<rparr>,
      \<lparr>sel_name = None, sel_classes = [''d-flex''], sel_attrs = []\<rparr>,
      \<lparr>sel_name = Some ''a'', sel_classes = [''w-100'', ''h-100'', ''d-block''],
       sel_attrs = []\<rparr>]"

definition post_container_selector :: "compound list" where
  \<comment> \<open>\<^verbatim>\<open>article.forum-post-container\<close>\<close>
  "post_container_selector =
     [\<lparr>sel_name = Some ''article'', sel_classes = [''forum-post-container''],
       sel_attrs = []\<rparr>]"

definition content_selector :: "compound list" where
  \<comment> \<open>\<^verbatim>\<open>.post-content-container\<close>\<close>
  "content_selector =
     [\<lparr>sel_name = None, sel_classes = [''post-content-container''], sel_attrs = []\<rparr>]"

definition header_selector :: "compound list" where
  \<comment> \<open>\<^verbatim>\<open>header\<close>\<close>
  "header_selector = [\<lparr>sel_name = Some ''header'', sel_classes = [], sel_attrs = []\<rparr>]"

definition title_selector :: "compound list" where
  \<comment> \<open>\<^verbatim>\<open>h3[data-region-content="forum-post-core-subject"]\<close>\<close>
  "title_selector =
     [\<lparr>sel_name = Some ''h3'', sel_classes = [],
       sel_attrs = [AttrEquals ''data-region-content'' ''forum-post-core-subject'']\<rparr>]"

definition author_selector :: "compound list" where
  \<comment> \<open>\<^verbatim>\<open>a[href*="/user/view.php"]\<close>\<close>
  "author_selector =
     [\<lparr>sel_name = Some ''a'', sel_classes = [],
       sel_attrs = [AttrContains ''href'' ''/user/view.php'']\<rparr>]"

definition time_selector :: "compound list" where
  \<comment> \<open>\<^verbatim>\<open>time\<close>\<close>
  "time_selector = [\<lparr>sel_name = Some ''time'', sel_classes = [], sel_attrs = []\<rparr>]"

section \<open>Exceptions, the network and the observable events\<close>

text \<open>
  The exceptions the program tells apart: \<^verbatim>\<open>requests.RequestException\<close> (with its
  subclass \<^verbatim>\<open>HTTPError\<close>) and every other \<^verbatim>\<open>Exception\<close>; the string is \<^verbatim>\<open>str(e)\<close>.
  A function that can raise returns \<open>exn + 'a\<close>, with \<open>Inl\<close> for the exception that
  leaves it.
\<close>

datatype exn = RequestException string | OtherException string

text \<open>What the program reads of a \<^verbatim>\<open>requests.Response\<close>.\<close>

record response =
  status_code :: nat
  reason :: string
  resp_url :: string      \<comment> \<open>\<^verbatim>\<open>response.url\<close>, the URL after redirects\<close>
  resp_text :: string     \<comment> \<open>\<^verbatim>\<open>response.text\<close>\<close>

text \<open>\<^verbatim>\<open>response.raise_for_status()\<close>: an \<^verbatim>\<open>HTTPError\<close> for the statuses 400 to 599.\<close>

definition raise_for_status :: "response \<Rightarrow> exn + unit" where
  "raise_for_status r =
     (if 400 \<le> status_code r \<and> status_code r < 500
      then Inl (RequestException (str_nat (status_code r) @ '' Client Error: '' @ reason r
                  @ '' for url: '' @ resp_url r))
      else if 500 \<le> status_code r \<and> status_code r < 600
      then Inl (RequestException (str_nat (status_code r) @ '' Server Error: '' @ reason r
                  @ '' for url: '' @ resp_url r))
      else Inr ())"

text \<open>The \<^verbatim>\<open>requests.Session\<close> of a scraper: its cookies and headers.\<close>

record session =
  cookies :: "(string \<times> string) list"
  headers :: "(string \<times> string) list"

text \<open>
  The collaborators of the program, as parameters: the network (the outcome of
  \<^verbatim>\<open>session.get(url)\<close>: an exception or a response; the same request has the same outcome
  throughout one run), the HTML parser, the reference resolution of
  \<^verbatim>\<open>urllib.parse.urljoin\<close> for a non-empty base and a non-empty reference, the process
  environment, and the path \<^verbatim>\<open>OUTPUT_DIR / output_file\<close> as text.
\<close>

record env =
  session_get :: "session \<Rightarrow> string \<Rightarrow> exn + response"
  html_parser :: "string \<Rightarrow> exn + node"
  resolve :: "string \<Rightarrow> string \<Rightarrow> exn + string"
  getenv :: "string \<Rightarrow> string option"
  output_path :: "string \<Rightarrow> string"

text \<open>
  \<^verbatim>\<open>urljoin(base, url)\<close>, where \<open>url\<close> may be \<^verbatim>\<open>None\<close>: an empty base gives \<open>url\<close> back, an
  empty or missing \<open>url\<close> gives the base back, anything else is resolved.
\<close>

definition urljoin :: "env \<Rightarrow> string \<Rightarrow> string option \<Rightarrow> exn + string option" where
  "urljoin e base ref =
     (if base = [] then Inr ref
      else case ref of
             None \<Rightarrow> Inr (Some base)
           | Some r \<Rightarrow> if r = [] then Inr (Some base)
                       else (case resolve e base r of Inl x \<Rightarrow> Inl x | Inr j \<Rightarrow> Inr (Some j)))"

text \<open>
  What a run does to the outside, in order: a log record, a GET request, a sleep of
  so many seconds, a prompt shown by \<^verbatim>\<open>input\<close>, a file written in one piece. A function
  with effects returns its value together with the events it caused.
\<close>

datatype level = INFO | WARNING | ERROR

datatype event =
    Log level string
  | Get string
  | Sleep nat
  | Input string
  | Write string string

section \<open>The scraper\<close>

record ForumPost =
  title :: string
  content :: string
  author :: string
  date :: string

record scraper =
  base_url :: string
  session :: session

text \<open>\<^verbatim>\<open>MoodleForumScraper.__init__\<close>.\<close>

definition MoodleForumScraper :: "string \<Rightarrow> string \<Rightarrow> scraper \<times> event list" where
  "MoodleForumScraper b moodle_session =
     (\<lparr>base_url = b,
       session = \<lparr>cookies = [(''MoodleSession'', moodle_session)],
                  headers = [(''User-Agent'',
                    ''Mozilla/5.0 (Windows NT 10.0; Win64; x64) AppleWebKit/537.36 (KHTML, like Gecko) Chrome/91.0.4472.124 Safari/537.36'')]\<rparr>\<rparr>,
      [Log INFO (''Initialized scraper for URL: '' @ b),
       Log INFO ''Cookie and headers set''])"

subsection \<open>\<^verbatim>\<open>get_page_content\<close>\<close>

text \<open>The body of the \<^verbatim>\<open>try\<close> block: \<open>Inl\<close> is an exception raised inside it.\<close>

definition get_page_content_try ::
  "env \<Rightarrow> scraper \<Rightarrow> string \<Rightarrow> (exn + node option) \<times> event list" where
  "get_page_content_try e self u =
     (let ev = [Log INFO (''Fetching URL: '' @ u), Get u]
      in case session_get e (session self) u of
           Inl x \<Rightarrow> (Inl x, ev)
         | Inr response \<Rightarrow>
             (case raise_for_status response of
                Inl x \<Rightarrow> (Inl x, ev)
              | Inr _ \<Rightarrow>
                  if contains (lower (resp_url response)) ''login''
                  then (Inr None,
                        ev @ [Log ERROR
                          ''Got redirected to login page. Session cookie might be invalid''])
                  else (case html_parser e (resp_text response) of
                          Inl x \<Rightarrow> (Inl x, ev)
                        | Inr soup \<Rightarrow> (Inr (Some soup), ev))))"

text \<open>
  The whole function: the two \<^verbatim>\<open>except\<close> clauses, in the order of the source, turn an
  exception of the body into the result \<^verbatim>\<open>None\<close>.
\<close>

definition get_page_content ::
  "env \<Rightarrow> scraper \<Rightarrow> string \<Rightarrow> (exn + node option) \<times> event list" where
  "get_page_content e self u =
     (case get_page_content_try e self u of
        (Inl (RequestException m), ev) \<Rightarrow>
          (Inr None, ev @ [Log ERROR (''Error fetching '' @ u @ '': '' @ m)])
      | (Inl (OtherException m), ev) \<Rightarrow>
          (Inr None, ev @ [Log ERROR (''Unexpected error processing '' @ u @ '': '' @ m)])
      | (Inr r, ev) \<Rightarrow> (Inr r, ev))"

subsection \<open>\<^verbatim>\<open>get_discussion_links\<close>\<close>

text \<open>
  The \<^verbatim>\<open>for\<close> loop over the selected anchors, with the list built so far. An exception
  of \<^verbatim>\<open>urljoin\<close> is not caught and leaves the function.
\<close>

fun discussion_links_loop ::
  "env \<Rightarrow> scraper \<Rightarrow> node list \<Rightarrow> string list \<Rightarrow> (exn + string list) \<times> event list" where
  "discussion_links_loop e self [] discussion_links = (Inr discussion_links, [])"
| "discussion_links_loop e self (link # links) discussion_links =
     (case urljoin e (base_url self) (get link ''href'') of
        Inl x \<Rightarrow> (Inl x, [])
      | Inr None \<Rightarrow> discussion_links_loop e self links discussion_links
      | Inr (Some discussion_url) \<Rightarrow>
          if discussion_url \<noteq> []
          then (case discussion_links_loop e self links (discussion_links @ [discussion_url]) of
                  (r, ev) \<Rightarrow>
                    (r, Log INFO (''Found discussion: '' @ strip (text_of link) @ '' - ''
                                   @ discussion_url) # ev))
          else discussion_links_loop e self links discussion_links)"

definition get_discussion_links ::
  "env \<Rightarrow> scraper \<Rightarrow> node \<Rightarrow> (exn + string list) \<times> event list" where
  "get_discussion_links e self soup =
     discussion_links_loop e self (select discussion_link_selector soup) []"

subsection \<open>\<^verbatim>\<open>extract_posts_from_discussion\<close>\<close>

text \<open>
  The body of the loop over the post containers: the post to append, if any, and the
  log records. Nothing in the body raises in this model, so its \<^verbatim>\<open>except\<close> clause has no
  branch here. A \<open>Tag\<close> is always true in a condition, so \<^verbatim>\<open>if post_content and header\<close>
  and \<^verbatim>\<open>all([...])\<close> test for \<^verbatim>\<open>None\<close>.
\<close>

definition extract_post :: "node \<Rightarrow> ForumPost option \<times> event list" where
  "extract_post post_article =
     (case (select_one content_selector post_article,
            select_one header_selector post_article) of
        (Some post_content, Some header) \<Rightarrow>
          (case (select_one title_selector header, select_one author_selector header,
                 select_one time_selector header) of
             (Some title_el, Some author_link, Some date_el) \<Rightarrow>
               (let post = \<lparr>title = get_text_strip title_el,
                            content = get_text_strip post_content,
                            author = get_text_strip author_link,
                            date = get_default date_el ''datetime'' []\<rparr>
                in (Some post,
                    [Log INFO (CHR 0x0A # ''Post found:''),
                     Log INFO (''Title: '' @ title post),
                     Log INFO (''Author: '' @ author post),
                     Log INFO (''Date: '' @ date post),
                     Log INFO (''Content: '' @ take 100 (content post) @ ''...'')]))
           | _ \<Rightarrow>
               (None,
                [Log WARNING ''Incomplete post data found. Missing some required elements.'']))
      | _ \<Rightarrow> (None, []))"

fun extract_posts_loop :: "node list \<Rightarrow> ForumPost list \<Rightarrow> ForumPost list \<times> event list" where
  "extract_posts_loop [] posts = (posts, [])"
| "extract_posts_loop (post_article # rest) posts =
     (case extract_post post_article of
        (r, ev) \<Rightarrow>
          (case extract_posts_loop rest (case r of None \<Rightarrow> posts | Some post \<Rightarrow> posts @ [post]) of
             (ps, ev') \<Rightarrow> (ps, ev @ ev')))"

definition extract_posts_from_discussion ::
  "env \<Rightarrow> scraper \<Rightarrow> string \<Rightarrow> (exn + ForumPost list) \<times> event list" where
  "extract_posts_from_discussion e self u =
     (case get_page_content e self u of
        (Inl x, ev) \<Rightarrow> (Inl x, ev)
      | (Inr None, ev) \<Rightarrow> (Inr [], ev)
      | (Inr (Some soup), ev) \<Rightarrow>
          (case extract_posts_loop (select post_container_selector soup) [] of
             (posts, ev') \<Rightarrow> (Inr posts, ev @ ev')))"

subsection \<open>\<^verbatim>\<open>scrape_forum\<close>\<close>

text \<open>
  A Python \<^verbatim>\<open>dict\<close> from discussion URL to posts, as the list of its items in insertion
  order: storing under a key that is present replaces the value where it stands,
  storing under a new key appends.
\<close>

type_synonym discussions = "(string \<times> ForumPost list) list"

fun dict_set :: "discussions \<Rightarrow> string \<Rightarrow> ForumPost list \<Rightarrow> discussions" where
  "dict_set [] k v = [(k, v)]"
| "dict_set ((k', v') # d) k v = (if k' = k then (k, v) # d else (k', v') # dict_set d k v)"

text \<open>\<^verbatim>\<open>d.update(other)\<close>.\<close>

definition dict_update :: "discussions \<Rightarrow> discussions \<Rightarrow> discussions" where
  "dict_update d other = foldl (\<lambda>acc (k, v). dict_set acc k v) d other"

text \<open>The inner \<^verbatim>\<open>for\<close> loop of \<^verbatim>\<open>scrape_forum\<close>, over the links of one index page.\<close>

fun visit_discussions ::
  "env \<Rightarrow> scraper \<Rightarrow> string list \<Rightarrow> discussions \<Rightarrow> (exn + discussions) \<times> event list" where
  "visit_discussions e self [] all_discussions = (Inr all_discussions, [])"
| "visit_discussions e self (discussion_url # rest) all_discussions =
     (case extract_posts_from_discussion e self discussion_url of
        (Inl x, ev) \<Rightarrow> (Inl x, Log INFO (''Scraping discussion: '' @ discussion_url) # ev)
      | (Inr posts, ev) \<Rightarrow>
          (case visit_discussions e self rest
                  (if posts \<noteq> [] then dict_set all_discussions discussion_url posts
                   else all_discussions) of
             (r, ev') \<Rightarrow>
               (r, Log INFO (''Scraping discussion: '' @ discussion_url) # ev @ [Sleep 1] @ ev')))"

text \<open>
  The \<^verbatim>\<open>while True\<close> loop, from the page counter and the dictionary built so far. The loop
  has no bound of its own: \<open>None\<close> is a run that never leaves it.
\<close>

partial_function (option) scrape_pages ::
  "env \<Rightarrow> scraper \<Rightarrow> nat \<Rightarrow> discussions \<Rightarrow> ((exn + discussions) \<times> event list) option" where
  "scrape_pages e self page all_discussions =
     (case get_page_content e self (base_url self @ ''&page='' @ str_nat page) of
        (Inl x, ev) \<Rightarrow> Some (Inl x, Log INFO (''Scraping page '' @ str_nat page) # ev)
      | (Inr None, ev) \<Rightarrow>
          Some (Inr all_discussions, Log INFO (''Scraping page '' @ str_nat page) # ev)
      | (Inr (Some soup), ev) \<Rightarrow>
          (case get_discussion_links e self soup of
             (Inl x, ev1) \<Rightarrow>
               Some (Inl x, Log INFO (''Scraping page '' @ str_nat page) # ev @ ev1)
           | (Inr discussion_links, ev1) \<Rightarrow>
               if discussion_links = []
               then Some (Inr all_discussions,
                          Log INFO (''Scraping page '' @ str_nat page) # ev @ ev1)
               else (case visit_discussions e self discussion_links all_discussions of
                       (Inl x, ev2) \<Rightarrow>
                         Some (Inl x,
                               Log INFO (''Scraping page '' @ str_nat page) # ev @ ev1 @ ev2)
                     | (Inr d, ev2) \<Rightarrow>
                         Option.bind (scrape_pages e self (page + 1) d)
                           (\<lambda>(r, ev3).
                              Some (r, Log INFO (''Scraping page '' @ str_nat page)
                                       # ev @ ev1 @ ev2 @ ev3)))))"

declare scrape_pages.simps [code]

definition scrape_forum ::
  "env \<Rightarrow> scraper \<Rightarrow> ((exn + discussions) \<times> event list) option" where
  "scrape_forum e self = scrape_pages e self 0 []"

subsection \<open>\<^verbatim>\<open>save_to_file\<close>\<close>

definition newline :: string where
  "newline = [CHR 0x0A]"

text \<open>The five \<^verbatim>\<open>f.write\<close> calls for one post.\<close>

definition post_text :: "ForumPost \<Rightarrow> string" where
  "post_text post =
     ''Title: '' @ title post @ newline
     @ ''Author: '' @ author post @ newline
     @ ''Date: '' @ date post @ newline
     @ ''Content:'' @ newline @ content post @ newline
     @ newline @ replicate 40 CHR ''-'' @ newline @ newline"

text \<open>The three \<^verbatim>\<open>f.write\<close> calls for the head of one discussion, then its posts.\<close>

definition discussion_text :: "string \<times> ForumPost list \<Rightarrow> string" where
  "discussion_text item =
     newline @ replicate 80 CHR ''='' @ newline
     @ ''Discussion URL: '' @ fst item @ newline
     @ replicate 80 CHR ''='' @ newline @ newline
     @ concat (map post_text (snd item))"

text \<open>Everything written to the file, in the order of \<^verbatim>\<open>discussions.items()\<close>.\<close>

definition file_text :: "discussions \<Rightarrow> string" where
  "file_text d = concat (map discussion_text d)"

text \<open>
  \<^verbatim>\<open>save_to_file\<close>: the file is opened for writing, so what it held before is gone. A
  failure to open or to write it is not modelled.
\<close>

definition save_to_file :: "env \<Rightarrow> scraper \<Rightarrow> discussions \<Rightarrow> string \<Rightarrow> event list" where
  "save_to_file e self d output_file =
     [Write (output_path e output_file) (file_text d),
      Log INFO (''Forum content has been saved to '' @ output_path e output_file)]"

subsection \<open>\<^verbatim>\<open>main\<close>\<close>

definition str_exn :: "exn \<Rightarrow> string" where
  "str_exn x = (case x of RequestException m \<Rightarrow> m | OtherException m \<Rightarrow> m)"

definition DEFAULT_OUTPUT_FILE :: string where
  "DEFAULT_OUTPUT_FILE = ''foro_exportado.txt''"

definition url_prompt :: string where
  "url_prompt = ''Enter the Moodle forum URL (or press Enter to finish): ''"

text \<open>
  The \<^verbatim>\<open>while True\<close> loop of \<^verbatim>\<open>main\<close> that collects the forum URLs. The lines that the user
  will type are the list \<open>stdin\<close>; \<^verbatim>\<open>input\<close> at the end of them raises \<^verbatim>\<open>EOFError\<close>. \<open>Inr\<close> is
  the dictionary with which the loop is left by \<^verbatim>\<open>break\<close>, \<open>Inl\<close> an exception on its way
  to the handlers of \<^verbatim>\<open>main\<close>, \<open>None\<close> a crawl that never ends.
\<close>

fun forum_url_loop ::
  "env \<Rightarrow> string \<Rightarrow> string list \<Rightarrow> discussions \<Rightarrow> ((exn + discussions) \<times> event list) option"
where
  "forum_url_loop e moodle_session [] all_discussions =
     Some (Inl (OtherException ''EOF when reading a line''), [Input url_prompt])"
| "forum_url_loop e moodle_session (forum_url # stdin) all_discussions =
     (if forum_url = [] then Some (Inr all_discussions, [Input url_prompt])
      else if \<not> (startswith forum_url ''http://'' \<or> startswith forum_url ''https://'')
      then Option.bind (forum_url_loop e moodle_session stdin all_discussions)
             (\<lambda>(r, ev). Some (r,
                [Input url_prompt,
                 Log ERROR ''Invalid URL. Please enter a complete URL starting with http:// or https://'']
                @ ev))
      else (case MoodleForumScraper forum_url moodle_session of
              (scraper, ev0) \<Rightarrow>
                (case scrape_forum e scraper of
                   None \<Rightarrow> None
                 | Some (Inl x, ev1) \<Rightarrow>
                     Some (Inl x,
                           [Input url_prompt,
                            Log INFO (''Starting forum scraping for URL: '' @ forum_url)]
                           @ ev0 @ ev1)
                 | Some (Inr discussions, ev1) \<Rightarrow>
                     if discussions = []
                     then Option.bind (forum_url_loop e moodle_session stdin all_discussions)
                            (\<lambda>(r, ev). Some (r,
                               [Input url_prompt,
                                Log INFO (''Starting forum scraping for URL: '' @ forum_url)]
                               @ ev0 @ ev1
                               @ [Log ERROR (''No discussions were found for '' @ forum_url
                                             @ ''. This could mean:''),
                                  Log ERROR ''1. The MoodleSession cookie is invalid or expired'',
                                  Log ERROR ''2. The URL is not a valid Moodle forum'',
                                  Log ERROR ''3. The forum is empty'',
                                  Log ERROR ''4. The forum requires additional permissions'']
                               @ ev))
                     else Option.bind
                            (forum_url_loop e moodle_session stdin
                               (dict_update all_discussions discussions))
                            (\<lambda>(r, ev). Some (r,
                               [Input url_prompt,
                                Log INFO (''Starting forum scraping for URL: '' @ forum_url)]
                               @ ev0 @ ev1 @ ev)))))"

text \<open>
  \<^verbatim>\<open>main\<close>, from the lines on standard input to the events of the run. An interrupt from
  the keyboard is not an input of this model.
\<close>

definition main :: "env \<Rightarrow> string list \<Rightarrow> event list option" where
  "main e stdin =
     (case stdin of
        [] \<Rightarrow>
          Some [Input ''Enter your MoodleSession cookie value: '',
                Log ERROR (''An unexpected error occurred: '' @ ''EOF when reading a line'')]
      | moodle_session # rest \<Rightarrow>
          if moodle_session = []
          then Some [Input ''Enter your MoodleSession cookie value: '',
                     Log ERROR ''MoodleSession cookie is required'']
          else (let output_file =
                      (case getenv e ''OUT_FILE'' of None \<Rightarrow> DEFAULT_OUTPUT_FILE | Some v \<Rightarrow> v)
                in case forum_url_loop e moodle_session rest [] of
                     None \<Rightarrow> None
                   | Some (Inl x, ev) \<Rightarrow>
                       Some (Input ''Enter your MoodleSession cookie value: '' # ev
                             @ [Log ERROR (''An unexpected error occurred: '' @ str_exn x)])
                   | Some (Inr all_discussions, ev) \<Rightarrow>
                       if all_discussions = []
                       then Some (Input ''Enter your MoodleSession cookie value: '' # ev
                                  @ [Log ERROR ''No discussions were scraped from any forum''])
                       else (case MoodleForumScraper [] moodle_session of
                               (scraper, ev0) \<Rightarrow>
                                 Some (Input ''Enter your MoodleSession cookie value: '' # ev
                                       @ ev0
                                       @ save_to_file e scraper all_discussions output_file
                                       @ [Log INFO (''Total discussions scraped: ''
                                                    @ str_nat (length all_discussions)),
                                          Log INFO (''Total posts scraped: ''
                                                    @ str_nat (sum_list (map (\<lambda>item. length (snd item))
                                                                 all_discussions)))]))))"

section \<open>Notions of the specification\<close>

text \<open>
  A post container misses a required element: the content element, the header, or,
  inside the header, the title, the author link or the timestamp element. An element is
  there when the lookup of the program finds it: the first match anywhere below the
  container, and for the last three the first match anywhere below that header.
\<close>

definition missing_required :: "node \<Rightarrow> bool" where
  "missing_required post_article =
     (select_one content_selector post_article = None
      \<or> (case select_one header_selector post_article of
            None \<Rightarrow> True
          | Some header \<Rightarrow>
              select_one title_selector header = None
              \<or> select_one author_selector header = None
              \<or> select_one time_selector header = None))"

text \<open>The URL of the index page with number \<open>k\<close>, as \<^verbatim>\<open>scrape_forum\<close> builds it.\<close>

definition index_url :: "scraper \<Rightarrow> nat \<Rightarrow> string" where
  "index_url self k = base_url self @ ''&page='' @ str_nat k"

text \<open>The URLs requested in a run, in the order of the requests.\<close>

fun requests :: "event list \<Rightarrow> string list" where
  "requests [] = []"
| "requests (Get u # evs) = u # requests evs"
| "requests (ev # evs) = requests evs"

text \<open>The requests and the sleeps of a run, in order, without the rest.\<close>

fun network_events :: "event list \<Rightarrow> event list" where
  "network_events [] = []"
| "network_events (Get u # evs) = Get u # network_events evs"
| "network_events (Sleep n # evs) = Sleep n # network_events evs"
| "network_events (ev # evs) = network_events evs"

text \<open>The posts that a visit of the discussion \<open>u\<close> extracts.\<close>

definition posts_of :: "env \<Rightarrow> scraper \<Rightarrow> string \<Rightarrow> ForumPost list" where
  "posts_of e self u =
     (case fst (extract_posts_from_discussion e self u) of Inl x \<Rightarrow> [] | Inr posts \<Rightarrow> posts)"

text \<open>
  The discussion links of the index page with number \<open>k\<close>; none when the page cannot be
  fetched or the extraction raises.
\<close>

definition index_links :: "env \<Rightarrow> scraper \<Rightarrow> nat \<Rightarrow> string list" where
  "index_links e self k =
     (case fst (get_page_content e self (index_url self k)) of
        Inr (Some soup) \<Rightarrow>
          (case fst (get_discussion_links e self soup) of Inl x \<Rightarrow> [] | Inr links \<Rightarrow> links)
      | _ \<Rightarrow> [])"

section \<open>A small forum\<close>

text \<open>
  A forum to run the program on. Index page 0 lists two discussions and index page 1
  lists none. The first discussion has three post containers: a complete one, one with
  no author link, and one whose \<^verbatim>\<open>time\<close> element has no \<^verbatim>\<open>datetime\<close> attribute. The request
  for the second discussion ends on the login page. One more URL answers 404, another
  one answers 304 with a page, and every other request fails in the transport.
\<close>

definition demo_base :: string where
  "demo_base = ''http://m/f?id=7''"

definition demo_d1 :: string where
  "demo_d1 = ''http://m/d?d=1''"

definition demo_d2 :: string where
  "demo_d2 = ''http://m/d?d=2''"

definition demo_gone :: string where
  "demo_gone = ''http://m/gone''"

definition demo_cached :: string where
  "demo_cached = ''http://m/cached''"

definition demo_link :: "string \<Rightarrow> string \<Rightarrow> node" where
  "demo_link href label =
     Tag ''div'' [''d-flex''] []
       [Tag ''a'' [''w-100'', ''h-100'', ''d-block''] [(''href'', href)]
          [NavigableString label]]"

definition demo_index0 :: node where
  "demo_index0 =
     Tag ''[document]'' [] []
       [Tag ''tr'' [''topic''] []
          [demo_link demo_d1 '' First '', demo_link demo_d2 ''Second'']]"

definition demo_index1 :: node where
  "demo_index1 =
     Tag ''[document]'' [] [] [Tag ''p'' [] [] [NavigableString ''No discussions'']]"

definition demo_title :: node where
  "demo_title =
     Tag ''h3'' [] [(''data-region-content'', ''forum-post-core-subject'')]
       [NavigableString '' Hello '']"

definition demo_author :: node where
  "demo_author = Tag ''a'' [] [(''href'', ''/user/view.php?id=3'')] [NavigableString ''Ann'']"

definition demo_body :: node where
  "demo_body = Tag ''div'' [''post-content-container''] [] [NavigableString '' Hi all '']"

definition demo_post1 :: node where
  "demo_post1 =
     Tag ''article'' [''forum-post-container''] []
       [Tag ''header'' [] []
          [demo_title, demo_author,
           Tag ''time'' [] [(''datetime'', ''2024-05-01'')] [NavigableString ''1 May'']],
        demo_body]"

definition demo_post2 :: node where
  "demo_post2 =
     Tag ''article'' [''forum-post-container''] []
       [Tag ''header'' [] []
          [demo_title, Tag ''time'' [] [(''datetime'', ''2024-05-02'')] []],
        demo_body]"

definition demo_post3 :: node where
  "demo_post3 =
     Tag ''article'' [''forum-post-container''] []
       [Tag ''header'' [] []
          [demo_title, demo_author, Tag ''time'' [] [] [NavigableString ''3 May'']],
        demo_body]"


definition demo_discussion1 :: node where
  "demo_discussion1 = Tag ''[document]'' [] [] [demo_post1, demo_post2, demo_post3]"

definition demo_get :: "session \<Rightarrow> string \<Rightarrow> exn + response" where
  "demo_get s u =
     (if u = demo_base @ ''&page=0''
      then Inr \<lparr>status_code = 200, reason = ''OK'', resp_url = u, resp_text = ''i0''\<rparr>
      else if u = demo_base @ ''&page=1''
      then Inr \<lparr>status_code = 200, reason = ''OK'', resp_url = u, resp_text = ''i1''\<rparr>
      else if u = demo_d1
      then Inr \<lparr>status_code = 200, reason = ''OK'', resp_url = u, resp_text = ''d1''\<rparr>
      else if u = demo_d2
      then Inr \<lparr>status_code = 200, reason = ''OK'', resp_url = ''http://m/Login/index.php'',
                 resp_text = ''''\<rparr>
      else if u = demo_gone
      then Inr \<lparr>status_code = 404, reason = ''Not Found'', resp_url = u, resp_text = ''''\<rparr>
      else if u = demo_cached
      then Inr \<lparr>status_code = 304, reason = ''Not Modified'', resp_url = u, resp_text = ''i1''\<rparr>
      else Inl (RequestException ''connection refused''))"

definition demo_parser :: "string \<Rightarrow> exn + node" where
  "demo_parser t =
     (if t = ''i0'' then Inr demo_index0
      else if t = ''d1'' then Inr demo_discussion1
      else Inr demo_index1)"

definition demo_env :: env where
  "demo_env =
     \<lparr>session_get = demo_get, html_parser = demo_parser,
      resolve = (\<lambda>base ref. Inr ref), getenv = (\<lambda>v. None),
      output_path = (\<lambda>f. ''outputdata/'' @ f)\<rparr>"

definition demo_self :: scraper where
  "demo_self = fst (MoodleForumScraper demo_base ''s3cr3t'')"

text \<open>
  A second scraper for the same forum with another session cookie, and a network on
  which every request fails.
\<close>

definition demo_other :: scraper where
  "demo_other = fst (MoodleForumScraper demo_base ''0th3r'')"

definition demo_offline :: env where
  "demo_offline = demo_env\<lparr>session_get := (\<lambda>s u. Inl (RequestException ''offline''))\<rparr>"

section \<open>Reading the export back\<close>

text \<open>A string without a line break.\<close>

definition no_newline :: "string \<Rightarrow> bool" where
  "no_newline s = (CHR 0x0A \<notin> set s)"

text \<open>
  What \<^verbatim>\<open>save_to_file\<close> writes after the content of a post: the end of the content line, an
  empty line, the line of 40 dashes and an empty line.
\<close>

definition post_separator :: string where
  "post_separator = newline @ newline @ replicate 40 CHR ''-'' @ newline @ newline"

text \<open>
  A content after which the separator is found where it was written and not before:
  in the content followed by the separator, the separator occurs at the end only. A
  content with line breaks, also with empty lines, is of this kind as long as it
  neither contains the separator nor ends in a beginning of it.
\<close>

definition separator_free :: "string \<Rightarrow> bool" where
  "separator_free c = (\<not> contains (butlast (c @ post_separator)) post_separator)"

text \<open>
  A post that can be read back: no line break in its title, author and date, and a
  content of the kind above. A dictionary that can be read back: no line break in a
  URL, and posts that can be read back.
\<close>

definition readable_post :: "ForumPost \<Rightarrow> bool" where
  "readable_post post =
     (no_newline (title post) \<and> no_newline (author post)
      \<and> no_newline (date post) \<and> separator_free (content post))"

definition readable_discussions :: "discussions \<Rightarrow> bool" where
  "readable_discussions d =
     list_all (\<lambda>item. no_newline (fst item) \<and> list_all readable_post (snd item)) d"

text \<open>A text that does not go on with the label of a title line.\<close>

definition no_T :: "string \<Rightarrow> bool" where
  "no_T s = (case s of [] \<Rightarrow> True | c # cs \<Rightarrow> c \<noteq> CHR ''T'')"

text \<open>
  Three posts to export: a short one, one whose content quotes the export of the short
  one, and one whose content has several lines, an empty one among them.
\<close>

definition short_post :: ForumPost where
  "short_post = \<lparr>title = ''t'', content = ''c'', author = ''a'', date = ''d''\<rparr>"

definition quoting_post :: ForumPost where
  "quoting_post =
     \<lparr>title = ''t'',
      content = ''c'' @ newline @ newline @ replicate 40 CHR ''-'' @ newline @ newline
                @ ''Title: t'' @ newline @ ''Author: a'' @ newline @ ''Date: d'' @ newline
                @ ''Content:'' @ newline @ ''c'',
      author = ''a'', date = ''d''\<rparr>"

definition long_post :: ForumPost where
  "long_post =
     \<lparr>title = ''t'', content = ''one'' @ newline @ newline @ ''two'' @ newline @ ''---'',
      author = ''b'', date = ''''\<rparr>"

section \<open>Properties of the page fetcher\<close>

lemma get_page_content_Inr: "\<exists>r ev. get_page_content e self u = (Inr r, ev)"
  by (auto simp: get_page_content_def split: prod.splits sum.splits exn.splits)

lemma get_page_content_events_ok:
  "get_page_content e self u = (Inr (Some soup), ev)
   \<Longrightarrow> ev = [Log INFO (''Fetching URL: '' @ u), Get u]"
  by (auto simp: get_page_content_def get_page_content_try_def Let_def
           split: prod.splits sum.splits exn.splits if_splits)

text \<open>
  C9. \<^verbatim>\<open>get_page_content\<close> is total at its interface: for every URL and every outcome of the
  request (an exception of the transport, an error status, a login redirect, an
  exception of the parser, a page), the function returns \<^verbatim>\<open>None\<close> or a parsed page, and no
  exception leaves it.
\<close>

theorem get_page_content_never_raises:
  "fst (get_page_content e self u) = Inr None
   \<or> (\<exists>soup. fst (get_page_content e self u) = Inr (Some soup))"
  using get_page_content_Inr [of e self u]
  by (cases "fst (get_page_content e self u)") (auto split: option.splits)

text \<open>
  C8, as it is stated, fails. A response whose status is outside 200 to 299 is not
  always a failure for \<^verbatim>\<open>get_page_content\<close>: \<^verbatim>\<open>raise_for_status\<close> raises for the statuses 400 to
  599 only, so a response with status 304 and no login in its URL is parsed and
  returned, which the caller can tell from the \<^verbatim>\<open>None\<close> of a login redirect.
\<close>

theorem other_status_is_not_a_failure:
  "session_get demo_env (session demo_self) demo_cached
     = Inr \<lparr>status_code = 304, reason = ''Not Modified'', resp_url = demo_cached,
            resp_text = ''i1''\<rparr>
   \<and> \<not> (200 \<le> (304::nat) \<and> (304::nat) < 300)
   \<and> fst (get_page_content demo_env demo_self demo_cached) = Inr (Some demo_index1)
   \<and> fst (get_page_content demo_env demo_self demo_d2) = Inr None"
  by code_simp

text \<open>
  C8, amended. When the response of a request ends on a URL that contains \<^verbatim>\<open>login\<close> (in
  any case of the letters), \<^verbatim>\<open>get_page_content\<close> returns \<^verbatim>\<open>None\<close>; the caller gets the very
  same \<^verbatim>\<open>None\<close> when the transport raises and when the status of the response is from 400
  to 599, so these three causes cannot be told apart from the result. A response with
  any other status and no login in its URL is parsed and the page is returned.
\<close>

theorem login_redirect_is_failure:
  "(session_get e (session self) u = Inr r \<and> contains (lower (resp_url r)) ''login''
      \<longrightarrow> fst (get_page_content e self u) = Inr None)
   \<and> (session_get e (session self) u = Inl x
      \<longrightarrow> fst (get_page_content e self u) = Inr None)
   \<and> (session_get e (session self) u = Inr r \<and> 400 \<le> status_code r \<and> status_code r < 600
      \<longrightarrow> fst (get_page_content e self u) = Inr None)
   \<and> (session_get e (session self) u = Inr r
        \<and> \<not> (400 \<le> status_code r \<and> status_code r < 600)
        \<and> \<not> contains (lower (resp_url r)) ''login''
        \<and> html_parser e (resp_text r) = Inr soup
      \<longrightarrow> fst (get_page_content e self u) = Inr (Some soup))"
  by (auto simp: get_page_content_def get_page_content_try_def raise_for_status_def Let_def
           split: prod.splits sum.splits exn.splits if_splits)

theorem login_redirect_is_failure_witness:
  "session_get demo_env (session demo_self) demo_d2
     = Inr \<lparr>status_code = 200, reason = ''OK'', resp_url = ''http://m/Login/index.php'',
            resp_text = ''''\<rparr>
   \<and> contains (lower ''http://m/Login/index.php'') ''login''
   \<and> fst (get_page_content demo_env demo_self demo_d2) = Inr None
   \<and> session_get demo_env (session demo_self) ''http://m/x''
       = Inl (RequestException ''connection refused'')
   \<and> fst (get_page_content demo_env demo_self ''http://m/x'') = Inr None
   \<and> session_get demo_env (session demo_self) demo_gone
       = Inr \<lparr>status_code = 404, reason = ''Not Found'', resp_url = demo_gone, resp_text = ''''\<rparr>
   \<and> (400::nat) \<le> 404 \<and> (404::nat) < 600
   \<and> fst (get_page_content demo_env demo_self demo_gone) = Inr None
   \<and> session_get demo_env (session demo_self) demo_cached
       = Inr \<lparr>status_code = 304, reason = ''Not Modified'', resp_url = demo_cached,
              resp_text = ''i1''\<rparr>
   \<and> \<not> ((400::nat) \<le> 304 \<and> (304::nat) < 600)
   \<and> \<not> contains (lower demo_cached) ''login''
   \<and> html_parser demo_env ''i1'' = Inr demo_index1
   \<and> fst (get_page_content demo_env demo_self demo_cached) = Inr (Some demo_index1)"
  using login_redirect_is_failure [of demo_env demo_self demo_d2
          "\<lparr>status_code = 200, reason = ''OK'', resp_url = ''http://m/Login/index.php'', resp_text = ''''\<rparr>" "RequestException []"]
        login_redirect_is_failure [of demo_env demo_self "''http://m/x''" _ "RequestException ''connection refused''"]
        login_redirect_is_failure [of demo_env demo_self demo_gone
          "\<lparr>status_code = 404, reason = ''Not Found'', resp_url = demo_gone, resp_text = ''''\<rparr>"]
        login_redirect_is_failure [of demo_env demo_self demo_cached
          "\<lparr>status_code = 304, reason = ''Not Modified'', resp_url = demo_cached, resp_text = ''i1''\<rparr>"
          _ demo_index1]
  by code_simp

section \<open>Properties of the link extractor\<close>

text \<open>
  C3. A parsed index page on which nothing matches the selector of the discussion
  links gives the empty list, with no exception and no log record; and when the index
  page with number \<open>page\<close> is such a page, the loop of \<^verbatim>\<open>scrape_forum\<close> ends there: it returns
  the dictionary it had, raises nothing, and the only events of that round are the two
  INFO records and the request for the page, so no error is reported.
\<close>

theorem empty_index_page_stops_pagination:
  "(select discussion_link_selector soup = []
      \<longrightarrow> get_discussion_links e self soup = (Inr [], []))
   \<and> (fst (get_page_content e self (index_url self page)) = Inr (Some soup)
        \<and> select discussion_link_selector soup = []
      \<longrightarrow> scrape_pages e self page d
          = Some (Inr d, [Log INFO (''Scraping page '' @ str_nat page),
                          Log INFO (''Fetching URL: '' @ index_url self page),
                          Get (index_url self page)]))"
proof (intro conjI impI)
  assume "select discussion_link_selector soup = []"
  then show "get_discussion_links e self soup = (Inr [], [])"
    by (simp add: get_discussion_links_def)
next
  assume a: "fst (get_page_content e self (index_url self page)) = Inr (Some soup)
        \<and> select discussion_link_selector soup = []"
  obtain ev where g: "get_page_content e self (index_url self page) = (Inr (Some soup), ev)"
    using a by (cases "get_page_content e self (index_url self page)") auto
  have ev: "ev = [Log INFO (''Fetching URL: '' @ index_url self page), Get (index_url self page)]"
    using get_page_content_events_ok [OF g] .
  have l: "get_discussion_links e self soup = (Inr [], [])"
    using a by (simp add: get_discussion_links_def)
  show "scrape_pages e self page d
          = Some (Inr d, [Log INFO (''Scraping page '' @ str_nat page),
                          Log INFO (''Fetching URL: '' @ index_url self page),
                          Get (index_url self page)])"
    using g l ev by (subst scrape_pages.simps) (simp add: index_url_def)
qed

theorem empty_index_page_stops_pagination_witness:
  "select discussion_link_selector demo_index1 = []
   \<and> get_discussion_links demo_env demo_self demo_index1 = (Inr [], [])
   \<and> fst (get_page_content demo_env demo_self (index_url demo_self 1)) = Inr (Some demo_index1)
   \<and> scrape_pages demo_env demo_self 1 []
      = Some (Inr [], [Log INFO (''Scraping page '' @ str_nat 1),
                       Log INFO (''Fetching URL: '' @ index_url demo_self 1),
                       Get (index_url demo_self 1)])"
  using empty_index_page_stops_pagination [of demo_index1 demo_env demo_self 1 "[]"]
  by code_simp

lemma urljoin_cong:
  "resolve e1 = resolve e2 \<Longrightarrow> urljoin e1 b r = urljoin e2 b r"
  by (simp add: urljoin_def split: option.splits)

lemma discussion_links_loop_cong:
  "base_url s1 = base_url s2 \<Longrightarrow> resolve e1 = resolve e2
   \<Longrightarrow> discussion_links_loop e1 s1 links acc = discussion_links_loop e2 s2 links acc"
  by (induction links arbitrary: acc)
     (simp_all add: urljoin_cong [of e1 e2] split: sum.splits option.splits)

lemma discussion_links_loop_events:
  "ev \<in> set (snd (discussion_links_loop e self links acc)) \<Longrightarrow> \<exists>m. ev = Log INFO m"
  by (induction links arbitrary: acc)
     (auto simp: case_prod_beta split: sum.splits option.splits if_splits)

text \<open>
  C7. \<^verbatim>\<open>get_discussion_links\<close> is a function of the parsed page and of the base URL of the
  scraper alone: a second call on the same page gives the same list, whatever the
  session of the scraper and the state of the network are by then (\<^verbatim>\<open>urljoin\<close> being the
  same library function in both calls), and the function does nothing to the outside
  but write INFO records to the log.
\<close>

theorem get_discussion_links_pure:
  "base_url s1 = base_url s2 \<and> resolve e1 = resolve e2
   \<longrightarrow> get_discussion_links e1 s1 soup = get_discussion_links e2 s2 soup
       \<and> (\<forall>ev \<in> set (snd (get_discussion_links e1 s1 soup)). \<exists>m. ev = Log INFO m)"
  using discussion_links_loop_cong [of s1 s2 e1 e2] discussion_links_loop_events
  by (auto simp: get_discussion_links_def)

theorem get_discussion_links_pure_witness:
  "base_url demo_self = base_url demo_other
   \<and> resolve demo_env = resolve demo_offline
   \<and> get_discussion_links demo_env demo_self demo_index0
       = get_discussion_links demo_offline demo_other demo_index0
   \<and> fst (get_discussion_links demo_env demo_self demo_index0) = Inr [demo_d1, demo_d2]"
proof -
  have h: "base_url demo_self = base_url demo_other \<and> resolve demo_env = resolve demo_offline"
    by (simp add: demo_self_def demo_other_def demo_offline_def MoodleForumScraper_def)
  have v: "fst (get_discussion_links demo_env demo_self demo_index0) = Inr [demo_d1, demo_d2]"
    by code_simp
  from get_discussion_links_pure [of demo_self demo_other demo_env demo_offline demo_index0] h
  have "get_discussion_links demo_env demo_self demo_index0
       = get_discussion_links demo_offline demo_other demo_index0"
    by blast
  with h v show ?thesis by simp
qed

section \<open>Properties of the post extractor\<close>

lemma extract_post_None: "fst (extract_post a) = None \<longleftrightarrow> missing_required a"
  by (auto simp: extract_post_def missing_required_def Let_def split: option.splits)

lemma extract_post_Some:
  "fst (extract_post a) = Some p \<Longrightarrow>
   \<exists>pc h t al d.
     select_one content_selector a = Some pc \<and> select_one header_selector a = Some h
     \<and> select_one title_selector h = Some t \<and> select_one author_selector h = Some al
     \<and> select_one time_selector h = Some d
     \<and> p = \<lparr>title = get_text_strip t, content = get_text_strip pc,
            author = get_text_strip al, date = get_default d ''datetime'' []\<rparr>"
  by (auto simp: extract_post_def Let_def split: option.splits)

lemma extract_posts_loop_map_filter:
  "fst (extract_posts_loop cs posts) = posts @ List.map_filter (\<lambda>a. fst (extract_post a)) cs"
  by (induction cs arbitrary: posts)
     (simp_all add: List.map_filter_simps case_prod_beta split: option.splits)

lemma map_filter_append:
  "List.map_filter f (xs @ ys) = List.map_filter f xs @ List.map_filter f ys"
  by (simp add: List.map_filter_def)

lemma length_map_filter:
  "length (List.map_filter f cs) + length (filter (\<lambda>a. f a = None) cs) = length cs"
  by (induction cs) (auto simp: List.map_filter_simps split: option.splits)

lemma set_map_filter:
  "p \<in> set (List.map_filter f cs) \<Longrightarrow> \<exists>a \<in> set cs. f a = Some p"
  by (induction cs) (auto simp: List.map_filter_simps split: option.splits)

lemma extract_posts_from_discussion_page:
  "fst (get_page_content e self u) = Inr (Some soup) \<Longrightarrow>
   fst (extract_posts_from_discussion e self u)
     = Inr (List.map_filter (\<lambda>a. fst (extract_post a)) (select post_container_selector soup))"
  using extract_posts_loop_map_filter [of "select post_container_selector soup" "[]"]
  by (cases "get_page_content e self u")
     (simp add: extract_posts_from_discussion_def case_prod_beta)

text \<open>
  C1. On a discussion page that was fetched, the posts returned are the posts of the
  post containers that miss no required element, in the order of the page. So there is
  one post less than containers for each container that misses an element; a container
  that misses one is left out and the containers before and after it give the posts
  they give on their own; and every post returned has its four fields filled from the
  five elements of one container.
\<close>

theorem incomplete_containers_are_excluded:
  assumes "fst (get_page_content e self u) = Inr (Some soup)"
  shows "\<exists>posts. fst (extract_posts_from_discussion e self u) = Inr posts
     \<and> posts = List.map_filter (\<lambda>a. fst (extract_post a)) (select post_container_selector soup)
     \<and> length posts + length (filter missing_required (select post_container_selector soup))
         = length (select post_container_selector soup)
     \<and> (\<forall>xs a ys. select post_container_selector soup = xs @ a # ys \<and> missing_required a
           \<longrightarrow> posts = fst (extract_posts_loop xs []) @ fst (extract_posts_loop ys []))
     \<and> (\<forall>p \<in> set posts. \<exists>a \<in> set (select post_container_selector soup).
           \<exists>pc h t al d.
             select_one content_selector a = Some pc \<and> select_one header_selector a = Some h
             \<and> select_one title_selector h = Some t \<and> select_one author_selector h = Some al
             \<and> select_one time_selector h = Some d
             \<and> p = \<lparr>title = get_text_strip t, content = get_text_strip pc,
                    author = get_text_strip al, date = get_default d ''datetime'' []\<rparr>)"
proof -
  let ?cs = "select post_container_selector soup"
  let ?f = "\<lambda>a. fst (extract_post a)"
  have 1: "fst (extract_posts_from_discussion e self u) = Inr (List.map_filter ?f ?cs)"
    using assms by (rule extract_posts_from_discussion_page)
  have 2: "length (List.map_filter ?f ?cs) + length (filter missing_required ?cs) = length ?cs"
    using length_map_filter [of ?f ?cs] by (simp add: extract_post_None)
  have 3: "List.map_filter ?f ?cs = fst (extract_posts_loop xs []) @ fst (extract_posts_loop ys [])"
    if "?cs = xs @ a # ys" and "missing_required a" for xs a ys
    using that extract_post_None [of a]
    by (simp add: extract_posts_loop_map_filter map_filter_append List.map_filter_simps)
  have 4: "\<exists>a \<in> set ?cs. \<exists>pc h t al d.
             select_one content_selector a = Some pc \<and> select_one header_selector a = Some h
             \<and> select_one title_selector h = Some t \<and> select_one author_selector h = Some al
             \<and> select_one time_selector h = Some d
             \<and> p = \<lparr>title = get_text_strip t, content = get_text_strip pc,
                    author = get_text_strip al, date = get_default d ''datetime'' []\<rparr>"
    if "p \<in> set (List.map_filter ?f ?cs)" for p
    using set_map_filter [OF that] extract_post_Some by blast
  show ?thesis using 1 2 3 4 by blast
qed

theorem incomplete_containers_are_excluded_witness:
  "fst (get_page_content demo_env demo_self demo_d1) = Inr (Some demo_discussion1)
   \<and> select post_container_selector demo_discussion1 = [demo_post1] @ demo_post2 # [demo_post3]
   \<and> missing_required demo_post2
   \<and> fst (extract_posts_from_discussion demo_env demo_self demo_d1)
       = Inr (fst (extract_posts_loop [demo_post1] []) @ fst (extract_posts_loop [demo_post3] []))"
proof -
  have h: "fst (get_page_content demo_env demo_self demo_d1) = Inr (Some demo_discussion1)"
    by code_simp
  have s: "select post_container_selector demo_discussion1 = [demo_post1] @ demo_post2 # [demo_post3]"
    by code_simp
  have m: "missing_required demo_post2"
    by code_simp
  from incomplete_containers_are_excluded [OF h]
  obtain posts where p: "fst (extract_posts_from_discussion demo_env demo_self demo_d1) = Inr posts"
    and q: "\<forall>xs a ys. select post_container_selector demo_discussion1 = xs @ a # ys
               \<and> missing_required a
             \<longrightarrow> posts = fst (extract_posts_loop xs []) @ fst (extract_posts_loop ys [])"
    by blast
  from q s m have "posts = fst (extract_posts_loop [demo_post1] []) @ fst (extract_posts_loop [demo_post3] [])"
    by blast
  with h s m p show ?thesis by simp
qed



section \<open>Properties of the crawler\<close>

lemma requests_append: "requests (a @ b) = requests a @ requests b"
  by (induction a rule: requests.induct) simp_all

lemma network_events_append: "network_events (a @ b) = network_events a @ network_events b"
  by (induction a rule: network_events.induct) simp_all

lemma get_page_content_network:
  "network_events (snd (get_page_content e self u)) = [Get u]"
  by (auto simp: get_page_content_def get_page_content_try_def Let_def network_events_append
           split: prod.splits sum.splits exn.splits if_splits)

lemma get_page_content_requests:
  "requests (snd (get_page_content e self u)) = [u]"
  by (auto simp: get_page_content_def get_page_content_try_def Let_def requests_append
           split: prod.splits sum.splits exn.splits if_splits)

lemma extract_post_network: "network_events (snd (extract_post a)) = []"
  by (auto simp: extract_post_def Let_def split: option.splits)

lemma extract_post_requests: "requests (snd (extract_post a)) = []"
  by (auto simp: extract_post_def Let_def split: option.splits)

lemma extract_posts_loop_network: "network_events (snd (extract_posts_loop cs posts)) = []"
  by (induction cs arbitrary: posts)
     (simp_all add: case_prod_beta network_events_append extract_post_network)

lemma extract_posts_loop_requests: "requests (snd (extract_posts_loop cs posts)) = []"
  by (induction cs arbitrary: posts)
     (simp_all add: case_prod_beta requests_append extract_post_requests)

lemma extract_posts_Inr: "\<exists>posts. fst (extract_posts_from_discussion e self u) = Inr posts"
  using get_page_content_Inr [of e self u]
  by (auto simp: extract_posts_from_discussion_def case_prod_beta split: option.splits)

lemma extract_posts_network:
  "network_events (snd (extract_posts_from_discussion e self u)) = [Get u]"
  using get_page_content_network [of e self u]
  by (auto simp: extract_posts_from_discussion_def case_prod_beta network_events_append
                 extract_posts_loop_network
           split: sum.splits option.splits)

lemma extract_posts_requests:
  "requests (snd (extract_posts_from_discussion e self u)) = [u]"
  using get_page_content_requests [of e self u]
  by (auto simp: extract_posts_from_discussion_def case_prod_beta requests_append
                 extract_posts_loop_requests
           split: sum.splits option.splits)

lemma extract_posts_fetch_failed:
  "fst (get_page_content e self u) = Inr None \<Longrightarrow> posts_of e self u = []"
  by (cases "get_page_content e self u")
     (simp add: posts_of_def extract_posts_from_discussion_def)

lemma map_of_dict_set: "map_of (dict_set d k v) = (map_of d)(k \<mapsto> v)"
  by (induction d k v rule: dict_set.induct) auto

lemma visit_discussions_step:
  "visit_discussions e self (u # rest) d =
     (case visit_discussions e self rest
             (if posts_of e self u \<noteq> [] then dict_set d u (posts_of e self u) else d) of
        (r, ev') \<Rightarrow>
          (r, Log INFO (''Scraping discussion: '' @ u)
              # snd (extract_posts_from_discussion e self u) @ [Sleep 1] @ ev'))"
  using extract_posts_Inr [of e self u]
  by (cases "extract_posts_from_discussion e self u") (auto simp: posts_of_def)

lemma visit_discussions_Inr:
  "\<exists>d'. fst (visit_discussions e self links d) = Inr d'"
proof (induction links arbitrary: d)
  case Nil
  show ?case by simp
next
  case (Cons u rest)
  show ?case
    using Cons [of "if posts_of e self u \<noteq> [] then dict_set d u (posts_of e self u) else d"]
    by (simp only: visit_discussions_step case_prod_beta fst_conv)
qed

lemma visit_discussions_network:
  "network_events (snd (visit_discussions e self links d))
     = concat (map (\<lambda>u. [Get u, Sleep 1]) links)"
proof (induction links arbitrary: d)
  case Nil
  show ?case by simp
next
  case (Cons u rest)
  show ?case
    by (simp add: visit_discussions_step case_prod_beta network_events_append
                  extract_posts_network Cons del: visit_discussions.simps)
qed

lemma visit_discussions_requests:
  "requests (snd (visit_discussions e self links d)) = links"
proof (induction links arbitrary: d)
  case Nil
  show ?case by simp
next
  case (Cons u rest)
  show ?case
    by (simp add: visit_discussions_step case_prod_beta requests_append
                  extract_posts_requests Cons del: visit_discussions.simps)
qed

lemma visit_discussions_lookup:
  "fst (visit_discussions e self links d) = Inr d' \<Longrightarrow>
   map_of d' u = (if u \<in> set links \<and> posts_of e self u \<noteq> []
                  then Some (posts_of e self u) else map_of d u)"
proof (induction links arbitrary: d)
  case Nil
  then show ?case by simp
next
  case (Cons v rest)
  let ?d = "if posts_of e self v \<noteq> [] then dict_set d v (posts_of e self v) else d"
  have "fst (visit_discussions e self rest ?d) = Inr d'"
    using Cons.prems by (simp only: visit_discussions_step case_prod_beta fst_conv)
  from Cons.IH [OF this] show ?case
    by (auto simp: map_of_dict_set)
qed

lemma get_discussion_links_requests:
  "requests (snd (get_discussion_links e self soup)) = []"
proof -
  have "requests (snd (discussion_links_loop e self links acc)) = []" for links acc
    by (induction links arbitrary: acc)
       (auto simp: case_prod_beta split: sum.splits option.splits)
  then show ?thesis by (simp add: get_discussion_links_def)
qed

lemma scrape_pages_continue:
  assumes g: "fst (get_page_content e self (index_url self page)) = Inr (Some soup)"
      and l: "fst (get_discussion_links e self soup) = Inr links"
      and n: "links \<noteq> []"
      and v: "fst (visit_discussions e self links d) = Inr d'"
  shows "scrape_pages e self page d =
           Option.bind (scrape_pages e self (page + 1) d')
             (\<lambda>(r, ev). Some (r,
                Log INFO (''Scraping page '' @ str_nat page)
                # snd (get_page_content e self (index_url self page))
                @ snd (get_discussion_links e self soup)
                @ snd (visit_discussions e self links d) @ ev))"
proof -
  obtain ev where g': "get_page_content e self (base_url self @ ''&page='' @ str_nat page) = (Inr (Some soup), ev)"
    using g by (cases "get_page_content e self (index_url self page)") (auto simp: index_url_def)
  obtain ev1 where l': "get_discussion_links e self soup = (Inr links, ev1)"
    using l by (cases "get_discussion_links e self soup") auto
  obtain ev2 where v': "visit_discussions e self links d = (Inr d', ev2)"
    using v by (cases "visit_discussions e self links d") auto
  show ?thesis
    using g' l' v' n by (subst scrape_pages.simps) (simp add: index_url_def)
qed

lemma get_discussion_links_network:
  "network_events (snd (get_discussion_links e self soup)) = []"
proof -
  have "network_events (snd (discussion_links_loop e self links acc)) = []" for links acc
    by (induction links arbitrary: acc)
       (auto simp: case_prod_beta split: sum.splits option.splits)
  then show ?thesis by (simp add: get_discussion_links_def)
qed

lemma scrape_pages_run:
  assumes ne: "\<forall>k<P. index_links e self k \<noteq> []"
      and g: "fst (get_page_content e self (index_url self P)) = Inr (Some soup)"
      and l: "fst (get_discussion_links e self soup) = Inr []"
  shows "page \<le> P \<Longrightarrow>
         \<exists>d' evs. scrape_pages e self page d = Some (Inr d', evs)
           \<and> network_events evs
               = concat (map (\<lambda>k. Get (index_url self k)
                                   # concat (map (\<lambda>u. [Get u, Sleep 1]) (index_links e self k)))
                             [page..<P])
                 @ [Get (index_url self P)]
           \<and> (\<forall>u. map_of d' u
                    = (if (\<exists>k. page \<le> k \<and> k < P \<and> u \<in> set (index_links e self k))
                          \<and> posts_of e self u \<noteq> []
                       then Some (posts_of e self u) else map_of d u))"
proof (induction "P - page" arbitrary: page d)
  case 0
  then have p: "page = P" by simp
  obtain ev where g': "get_page_content e self (base_url self @ ''&page='' @ str_nat P) = (Inr (Some soup), ev)"
    using g by (cases "get_page_content e self (index_url self P)") (auto simp: index_url_def)
  obtain ev1 where l': "get_discussion_links e self soup = (Inr [], ev1)"
    using l by (cases "get_discussion_links e self soup") auto
  have r: "network_events ev = [Get (index_url self P)]"
    using get_page_content_network [of e self "index_url self P"] g' by (simp add: index_url_def)
  have r1: "network_events ev1 = []"
    using get_discussion_links_network [of e self soup] l' by simp
  have e0: "scrape_pages e self P d
          = Some (Inr d, Log INFO (''Scraping page '' @ str_nat P) # ev @ ev1)"
    using g' l' by (subst scrape_pages.simps) simp
  have n0: "network_events (Log INFO (''Scraping page '' @ str_nat P) # ev @ ev1)
      = concat (map (\<lambda>k. Get (index_url self k)
                                   # concat (map (\<lambda>u. [Get u, Sleep 1]) (index_links e self k)))
                             [P..<P])
                 @ [Get (index_url self P)]"
    using r r1 by (simp add: network_events_append)
  have m0: "map_of d u
                    = (if (\<exists>k. P \<le> k \<and> k < P \<and> u \<in> set (index_links e self k))
                          \<and> posts_of e self u \<noteq> []
                       then Some (posts_of e self u) else map_of d u)" for u
    by auto
  show ?case unfolding p using e0 n0 m0 by blast
next
  case (Suc n)
  then have lt: "page < P" by simp
  have nl: "index_links e self page \<noteq> []" using ne lt by blast
  obtain sp where gp: "fst (get_page_content e self (index_url self page)) = Inr (Some sp)"
             and lp: "fst (get_discussion_links e self sp) = Inr (index_links e self page)"
    using nl by (auto simp: index_links_def split: sum.splits option.splits)
  obtain d1 where v: "fst (visit_discussions e self (index_links e self page) d) = Inr d1"
    using visit_discussions_Inr by blast
  have "n = P - (page + 1)" and "page + 1 \<le> P" using Suc.hyps(2) lt by simp_all
  from Suc.hyps(1) [OF this, of d1]
  obtain d' evs where s: "scrape_pages e self (page + 1) d1 = Some (Inr d', evs)"
    and r: "network_events evs
               = concat (map (\<lambda>k. Get (index_url self k)
                                   # concat (map (\<lambda>u. [Get u, Sleep 1]) (index_links e self k)))
                             [page + 1..<P])
                 @ [Get (index_url self P)]"
    and m: "\<And>u. map_of d' u
                    = (if (\<exists>k. page + 1 \<le> k \<and> k < P \<and> u \<in> set (index_links e self k))
                          \<and> posts_of e self u \<noteq> []
                       then Some (posts_of e self u) else map_of d1 u)"
    by blast
  have run: "scrape_pages e self page d
          = Some (Inr d', Log INFO (''Scraping page '' @ str_nat page)
                # snd (get_page_content e self (index_url self page))
                @ snd (get_discussion_links e self sp)
                @ snd (visit_discussions e self (index_links e self page) d) @ evs)"
    using scrape_pages_continue [OF gp lp nl v] s by simp
  have up: "[page..<P] = page # [page + 1..<P]"
    using lt by (simp add: upt_conv_Cons)
  have net: "network_events (Log INFO (''Scraping page '' @ str_nat page)
                # snd (get_page_content e self (index_url self page))
                @ snd (get_discussion_links e self sp)
                @ snd (visit_discussions e self (index_links e self page) d) @ evs)
      = concat (map (\<lambda>k. Get (index_url self k)
                                   # concat (map (\<lambda>u. [Get u, Sleep 1]) (index_links e self k)))
                             [page..<P])
                 @ [Get (index_url self P)]"
    using r by (simp add: up network_events_append get_page_content_network
                     get_discussion_links_network visit_discussions_network)
  have split: "(\<exists>k. page \<le> k \<and> k < P \<and> u \<in> set (index_links e self k))
      \<longleftrightarrow> u \<in> set (index_links e self page)
          \<or> (\<exists>k. page + 1 \<le> k \<and> k < P \<and> u \<in> set (index_links e self k))" for u
  proof
    assume "\<exists>k. page \<le> k \<and> k < P \<and> u \<in> set (index_links e self k)"
    then obtain k where k: "page \<le> k" "k < P" "u \<in> set (index_links e self k)" by blast
    show "u \<in> set (index_links e self page)
          \<or> (\<exists>k. page + 1 \<le> k \<and> k < P \<and> u \<in> set (index_links e self k))"
    proof (cases "k = page")
      case True
      with k show ?thesis by simp
    next
      case False
      with k have "page + 1 \<le> k" by simp
      with k show ?thesis by blast
    qed
  next
    assume "u \<in> set (index_links e self page)
          \<or> (\<exists>k. page + 1 \<le> k \<and> k < P \<and> u \<in> set (index_links e self k))"
    then show "\<exists>k. page \<le> k \<and> k < P \<and> u \<in> set (index_links e self k)"
    proof
      assume "u \<in> set (index_links e self page)"
      with lt show ?thesis by blast
    next
      assume "\<exists>k. page + 1 \<le> k \<and> k < P \<and> u \<in> set (index_links e self k)"
      then obtain k where "page + 1 \<le> k" "k < P" "u \<in> set (index_links e self k)" by blast
      then have "page \<le> k \<and> k < P \<and> u \<in> set (index_links e self k)" by simp
      then show ?thesis by blast
    qed
  qed
  have look: "map_of d' u
                    = (if (\<exists>k. page \<le> k \<and> k < P \<and> u \<in> set (index_links e self k))
                          \<and> posts_of e self u \<noteq> []
                       then Some (posts_of e self u) else map_of d u)" for u
    using m [of u] visit_discussions_lookup [OF v, of u] split [of u] by auto
  from run net look show ?case by blast
qed

text \<open>
  C6. The links found on an index page are visited in their order, each with one
  request followed by one sleep of one second, whatever the visit gives; no exception
  ends the loop early. Afterwards a URL is a key of the dictionary with the posts of
  its visit exactly when it is one of the links and its visit gave at least one post;
  every other key keeps what it had. In particular a discussion that cannot be fetched
  (a login redirect, say) adds no key. The round of \<^verbatim>\<open>scrape_forum\<close> for that index page
  causes the events of these visits, after those of fetching the page and of
  extracting its links, and goes on with the next page and the dictionary of the
  visits. And for a forum whose index pages 0 to \<open>P - 1\<close> give links and whose page \<open>P\<close>
  gives none, \<^verbatim>\<open>scrape_forum\<close> returns: its requests and sleeps are, page after page, the
  request for the index page and then one request and one sleep for each of its links,
  with the request for page \<open>P\<close> at the end; and the dictionary returned has as keys
  the links whose visit gave posts, each with these posts.
\<close>

theorem every_discussion_is_visited:
  "\<exists>d'. fst (visit_discussions e self links d) = Inr d'
     \<and> network_events (snd (visit_discussions e self links d))
         = concat (map (\<lambda>u. [Get u, Sleep 1]) links)
     \<and> (\<forall>u. map_of d' u = (if u \<in> set links \<and> posts_of e self u \<noteq> []
                             then Some (posts_of e self u) else map_of d u))
     \<and> (\<forall>u. fst (get_page_content e self u) = Inr None \<longrightarrow> map_of d' u = map_of d u)
     \<and> (\<forall>page soup. fst (get_page_content e self (index_url self page)) = Inr (Some soup)
            \<and> fst (get_discussion_links e self soup) = Inr links \<and> links \<noteq> []
          \<longrightarrow> scrape_pages e self page d
                = Option.bind (scrape_pages e self (page + 1) d')
                    (\<lambda>(r, ev). Some (r,
                       Log INFO (''Scraping page '' @ str_nat page)
                       # snd (get_page_content e self (index_url self page))
                       @ snd (get_discussion_links e self soup)
                       @ snd (visit_discussions e self links d) @ ev)))
     \<and> (\<forall>P soup. (\<forall>k<P. index_links e self k \<noteq> [])
            \<and> fst (get_page_content e self (index_url self P)) = Inr (Some soup)
            \<and> fst (get_discussion_links e self soup) = Inr []
          \<longrightarrow> (\<exists>result evs. scrape_forum e self = Some (Inr result, evs)
                \<and> network_events evs
                    = concat (map (\<lambda>k. Get (index_url self k)
                                        # concat (map (\<lambda>u. [Get u, Sleep 1])
                                                    (index_links e self k)))
                                  [0..<P])
                      @ [Get (index_url self P)]
                \<and> (\<forall>u. map_of result u
                         = (if (\<exists>k<P. u \<in> set (index_links e self k))
                               \<and> posts_of e self u \<noteq> []
                            then Some (posts_of e self u) else None))))"
proof -
  obtain d' where v: "fst (visit_discussions e self links d) = Inr d'"
    using visit_discussions_Inr by blast
  have 1: "map_of d' u = (if u \<in> set links \<and> posts_of e self u \<noteq> []
                             then Some (posts_of e self u) else map_of d u)" for u
    using visit_discussions_lookup [OF v] .
  have 2: "map_of d' u = map_of d u" if "fst (get_page_content e self u) = Inr None" for u
    using 1 [of u] extract_posts_fetch_failed [OF that] by simp
  have 3: "scrape_pages e self page d
                = Option.bind (scrape_pages e self (page + 1) d')
                    (\<lambda>(r, ev). Some (r,
                       Log INFO (''Scraping page '' @ str_nat page)
                       # snd (get_page_content e self (index_url self page))
                       @ snd (get_discussion_links e self soup)
                       @ snd (visit_discussions e self links d) @ ev))"
    if "fst (get_page_content e self (index_url self page)) = Inr (Some soup)
            \<and> fst (get_discussion_links e self soup) = Inr links \<and> links \<noteq> []" for page soup
    using scrape_pages_continue [of e self page soup links d d'] that v by simp
  have 4: "\<exists>result evs. scrape_forum e self = Some (Inr result, evs)
                \<and> network_events evs
                    = concat (map (\<lambda>k. Get (index_url self k)
                                        # concat (map (\<lambda>u. [Get u, Sleep 1])
                                                    (index_links e self k)))
                                  [0..<P])
                      @ [Get (index_url self P)]
                \<and> (\<forall>u. map_of result u
                         = (if (\<exists>k<P. u \<in> set (index_links e self k))
                               \<and> posts_of e self u \<noteq> []
                            then Some (posts_of e self u) else None))"
    if h: "(\<forall>k<P. index_links e self k \<noteq> [])
            \<and> fst (get_page_content e self (index_url self P)) = Inr (Some soup)
            \<and> fst (get_discussion_links e self soup) = Inr []" for P soup
  proof -
    from h have ne: "\<forall>k<P. index_links e self k \<noteq> []"
      and g: "fst (get_page_content e self (index_url self P)) = Inr (Some soup)"
      and l: "fst (get_discussion_links e self soup) = Inr []"
      by blast+
    from scrape_pages_run [OF ne g l, of 0 "[]"]
    obtain result evs where s: "scrape_pages e self 0 [] = Some (Inr result, evs)"
      and n: "network_events evs
                    = concat (map (\<lambda>k. Get (index_url self k)
                                        # concat (map (\<lambda>u. [Get u, Sleep 1])
                                                    (index_links e self k)))
                                  [0..<P])
                      @ [Get (index_url self P)]"
      and m: "\<And>u. map_of result u
                    = (if (\<exists>k. 0 \<le> k \<and> k < P \<and> u \<in> set (index_links e self k))
                          \<and> posts_of e self u \<noteq> []
                       then Some (posts_of e self u) else map_of [] u)"
      by blast
    have "map_of result u
                         = (if (\<exists>k<P. u \<in> set (index_links e self k))
                               \<and> posts_of e self u \<noteq> []
                            then Some (posts_of e self u) else None)" for u
      using m [of u] by simp
    with s n show ?thesis by (auto simp: scrape_forum_def)
  qed
  show ?thesis
    using v visit_discussions_network [of e self links d] 1 2 3 4 by blast
qed

theorem every_discussion_is_visited_witness:
  "fst (get_page_content demo_env demo_self demo_d2) = Inr None
   \<and> posts_of demo_env demo_self demo_d1 \<noteq> []
   \<and> fst (get_page_content demo_env demo_self (index_url demo_self 0)) = Inr (Some demo_index0)
   \<and> fst (get_discussion_links demo_env demo_self demo_index0) = Inr [demo_d1, demo_d2]
   \<and> (\<exists>d'. fst (visit_discussions demo_env demo_self [demo_d1, demo_d2] []) = Inr d'
         \<and> network_events (snd (visit_discussions demo_env demo_self [demo_d1, demo_d2] []))
             = [Get demo_d1, Sleep 1, Get demo_d2, Sleep 1]
         \<and> map_of d' demo_d1 = Some (posts_of demo_env demo_self demo_d1)
         \<and> map_of d' demo_d2 = None
         \<and> scrape_pages demo_env demo_self 0 []
             = Option.bind (scrape_pages demo_env demo_self (0 + 1) d')
                 (\<lambda>(r, ev). Some (r,
                    Log INFO (''Scraping page '' @ str_nat 0)
                    # snd (get_page_content demo_env demo_self (index_url demo_self 0))
                    @ snd (get_discussion_links demo_env demo_self demo_index0)
                    @ snd (visit_discussions demo_env demo_self [demo_d1, demo_d2] []) @ ev)))
   \<and> index_links demo_env demo_self 0 = [demo_d1, demo_d2]
   \<and> fst (get_page_content demo_env demo_self (index_url demo_self 1)) = Inr (Some demo_index1)
   \<and> fst (get_discussion_links demo_env demo_self demo_index1) = Inr []
   \<and> (\<exists>result evs. scrape_forum demo_env demo_self = Some (Inr result, evs)
         \<and> network_events evs
             = [Get (index_url demo_self 0), Get demo_d1, Sleep 1, Get demo_d2, Sleep 1,
                Get (index_url demo_self 1)]
         \<and> map_of result demo_d1 = Some (posts_of demo_env demo_self demo_d1)
         \<and> map_of result demo_d2 = None)"
proof -
  have a: "fst (get_page_content demo_env demo_self demo_d2) = Inr None"
    by code_simp
  have b: "posts_of demo_env demo_self demo_d1 \<noteq> []"
    by code_simp
  have b2: "posts_of demo_env demo_self demo_d2 = []"
    by code_simp
  have c: "fst (get_page_content demo_env demo_self (index_url demo_self 0)) = Inr (Some demo_index0)"
    by code_simp
  have d: "fst (get_discussion_links demo_env demo_self demo_index0) = Inr [demo_d1, demo_d2]"
    by code_simp
  have i0: "index_links demo_env demo_self 0 = [demo_d1, demo_d2]"
    by code_simp
  have g1: "fst (get_page_content demo_env demo_self (index_url demo_self 1)) = Inr (Some demo_index1)"
    by code_simp
  have l1: "fst (get_discussion_links demo_env demo_self demo_index1) = Inr []"
    by code_simp
  have h: "\<forall>k<1. index_links demo_env demo_self k \<noteq> []"
    using i0 by simp
  from every_discussion_is_visited [of demo_env demo_self "[demo_d1, demo_d2]" "[]"]
  obtain d' where
    1: "fst (visit_discussions demo_env demo_self [demo_d1, demo_d2] []) = Inr d'" and
    2: "network_events (snd (visit_discussions demo_env demo_self [demo_d1, demo_d2] []))
          = concat (map (\<lambda>u. [Get u, Sleep 1]) [demo_d1, demo_d2])" and
    3: "\<forall>u. map_of d' u = (if u \<in> set [demo_d1, demo_d2] \<and> posts_of demo_env demo_self u \<noteq> []
                             then Some (posts_of demo_env demo_self u) else map_of [] u)" and
    4: "\<forall>u. fst (get_page_content demo_env demo_self u) = Inr None \<longrightarrow> map_of d' u = map_of [] u" and
    5: "\<forall>page soup. fst (get_page_content demo_env demo_self (index_url demo_self page)) = Inr (Some soup)
            \<and> fst (get_discussion_links demo_env demo_self soup) = Inr [demo_d1, demo_d2]
            \<and> [demo_d1, demo_d2] \<noteq> []
          \<longrightarrow> scrape_pages demo_env demo_self page []
                = Option.bind (scrape_pages demo_env demo_self (page + 1) d')
                    (\<lambda>(r, ev). Some (r,
                       Log INFO (''Scraping page '' @ str_nat page)
                       # snd (get_page_content demo_env demo_self (index_url demo_self page))
                       @ snd (get_discussion_links demo_env demo_self soup)
                       @ snd (visit_discussions demo_env demo_self [demo_d1, demo_d2] []) @ ev))" and
    6: "\<forall>P soup. (\<forall>k<P. index_links demo_env demo_self k \<noteq> [])
            \<and> fst (get_page_content demo_env demo_self (index_url demo_self P)) = Inr (Some soup)
            \<and> fst (get_discussion_links demo_env demo_self soup) = Inr []
          \<longrightarrow> (\<exists>result evs. scrape_forum demo_env demo_self = Some (Inr result, evs)
                \<and> network_events evs
                    = concat (map (\<lambda>k. Get (index_url demo_self k)
                                        # concat (map (\<lambda>u. [Get u, Sleep 1])
                                                    (index_links demo_env demo_self k)))
                                  [0..<P])
                      @ [Get (index_url demo_self P)]
                \<and> (\<forall>u. map_of result u
                         = (if (\<exists>k<P. u \<in> set (index_links demo_env demo_self k))
                               \<and> posts_of demo_env demo_self u \<noteq> []
                            then Some (posts_of demo_env demo_self u) else None)))"
    by blast
  have 7: "map_of d' demo_d1 = Some (posts_of demo_env demo_self demo_d1)"
    using 3 b by simp
  have 8: "map_of d' demo_d2 = None"
    using 4 a by simp
  have 9: "scrape_pages demo_env demo_self 0 []
             = Option.bind (scrape_pages demo_env demo_self (0 + 1) d')
                 (\<lambda>(r, ev). Some (r,
                    Log INFO (''Scraping page '' @ str_nat 0)
                    # snd (get_page_content demo_env demo_self (index_url demo_self 0))
                    @ snd (get_discussion_links demo_env demo_self demo_index0)
                    @ snd (visit_discussions demo_env demo_self [demo_d1, demo_d2] []) @ ev))"
    using 5 c d by blast
  from 2 have 10: "network_events (snd (visit_discussions demo_env demo_self [demo_d1, demo_d2] []))
             = [Get demo_d1, Sleep 1, Get demo_d2, Sleep 1]"
    by simp
  from 6 h g1 l1
  obtain result evs where
    s: "scrape_forum demo_env demo_self = Some (Inr result, evs)" and
    n: "network_events evs
          = concat (map (\<lambda>k. Get (index_url demo_self k)
                              # concat (map (\<lambda>u. [Get u, Sleep 1])
                                          (index_links demo_env demo_self k)))
                        [0..<1])
            @ [Get (index_url demo_self 1)]" and
    m: "\<forall>u. map_of result u
               = (if (\<exists>k<1. u \<in> set (index_links demo_env demo_self k))
                     \<and> posts_of demo_env demo_self u \<noteq> []
                  then Some (posts_of demo_env demo_self u) else None)"
    by blast
  have n': "network_events evs
             = [Get (index_url demo_self 0), Get demo_d1, Sleep 1, Get demo_d2, Sleep 1,
                Get (index_url demo_self 1)]"
    using n i0 by simp
  have k0: "\<exists>k<1. demo_d1 \<in> set (index_links demo_env demo_self k)"
    using i0 by simp
  have m1: "map_of result demo_d1 = Some (posts_of demo_env demo_self demo_d1)"
    using m k0 b by simp
  have m2: "map_of result demo_d2 = None"
    using m b2 by simp
  from a b c d 1 7 8 9 10 i0 g1 l1 s n' m1 m2 show ?thesis by blast
qed

lemma scrape_pages_terminates:
  assumes ne: "\<forall>k<P. index_links e self k \<noteq> []"
      and g: "fst (get_page_content e self (index_url self P)) = Inr (Some soup)"
      and l: "fst (get_discussion_links e self soup) = Inr []"
  shows "page \<le> P \<Longrightarrow>
         \<exists>d' evs. scrape_pages e self page d = Some (Inr d', evs)
           \<and> requests evs
               = concat (map (\<lambda>k. index_url self k # index_links e self k) [page..<P])
                 @ [index_url self P]"
proof (induction "P - page" arbitrary: page d)
  case 0
  then have p: "page = P" by simp
  obtain ev where g': "get_page_content e self (base_url self @ ''&page='' @ str_nat P) = (Inr (Some soup), ev)"
    using g by (cases "get_page_content e self (index_url self P)") (auto simp: index_url_def)
  obtain ev1 where l': "get_discussion_links e self soup = (Inr [], ev1)"
    using l by (cases "get_discussion_links e self soup") auto
  have r: "requests ev = [index_url self P]"
    using get_page_content_requests [of e self "index_url self P"] g' by (simp add: index_url_def)
  have r1: "requests ev1 = []"
    using get_discussion_links_requests [of e self soup] l' by simp
  have "scrape_pages e self P d
          = Some (Inr d, Log INFO (''Scraping page '' @ str_nat P) # ev @ ev1)"
    using g' l' by (subst scrape_pages.simps) simp
  then show ?case using p r r1 by (simp add: requests_append)
next
  case (Suc n)
  then have lt: "page < P" by simp
  have nl: "index_links e self page \<noteq> []" using ne lt by blast
  obtain sp where gp: "fst (get_page_content e self (index_url self page)) = Inr (Some sp)"
             and lp: "fst (get_discussion_links e self sp) = Inr (index_links e self page)"
    using nl by (auto simp: index_links_def split: sum.splits option.splits)
  obtain d1 where v: "fst (visit_discussions e self (index_links e self page) d) = Inr d1"
    using visit_discussions_Inr by blast
  have "n = P - (page + 1)" and "page + 1 \<le> P" using Suc.hyps(2) lt by simp_all
  from Suc.hyps(1) [OF this, of d1]
  obtain d' evs where s: "scrape_pages e self (page + 1) d1 = Some (Inr d', evs)"
    and r: "requests evs
               = concat (map (\<lambda>k. index_url self k # index_links e self k) [page + 1..<P])
                 @ [index_url self P]"
    by blast
  have "scrape_pages e self page d
          = Some (Inr d', Log INFO (''Scraping page '' @ str_nat page)
                # snd (get_page_content e self (index_url self page))
                @ snd (get_discussion_links e self sp)
                @ snd (visit_discussions e self (index_links e self page) d) @ evs)"
    using scrape_pages_continue [OF gp lp nl v] s by simp
  moreover have "[page..<P] = page # [page + 1..<P]"
    using lt by (simp add: upt_conv_Cons)
  ultimately show ?case
    using r by (simp add: requests_append get_page_content_requests
                     get_discussion_links_requests visit_discussions_requests)
qed

text \<open>
  C4. When the index pages 0 to \<open>P - 1\<close> each give at least one discussion link and the
  index page \<open>P\<close> is fetched and gives none, \<^verbatim>\<open>scrape_forum\<close> returns. Its requests are, in
  order: for each \<open>k\<close> from 0 to \<open>P - 1\<close> the index URL with \<^verbatim>\<open>&page=k\<close> and then the
  discussions of that page, and at the end the index URL with \<^verbatim>\<open>&page=P\<close>. So there are
  \<open>P + 1\<close> requests for index pages, with the page numbers 0, 1, ..., \<open>P\<close> in this order,
  besides one request for each discussion link.
\<close>

theorem pagination_terminates:
  assumes "\<forall>k<P. index_links e self k \<noteq> []"
      and "fst (get_page_content e self (index_url self P)) = Inr (Some soup)"
      and "fst (get_discussion_links e self soup) = Inr []"
  shows "\<exists>d evs. scrape_forum e self = Some (Inr d, evs)
           \<and> requests evs
               = concat (map (\<lambda>k. index_url self k # index_links e self k) [0..<P])
                 @ [index_url self P]
           \<and> length (requests evs)
               = P + 1 + length (concat (map (index_links e self) [0..<P]))"
proof -
  from scrape_pages_terminates [OF assms, of 0 "[]"]
  obtain d evs where s: "scrape_pages e self 0 [] = Some (Inr d, evs)"
    and r: "requests evs
               = concat (map (\<lambda>k. index_url self k # index_links e self k) [0..<P])
                 @ [index_url self P]"
    by blast
  have "length (concat (map (\<lambda>k. index_url self k # index_links e self k) [a..<b]))
          = (b - a) + length (concat (map (index_links e self) [a..<b]))" for a b
    by (induction b) auto
  from this [of 0 P] have "length (requests evs)
               = P + 1 + length (concat (map (index_links e self) [0..<P]))"
    using r by simp
  with s r show ?thesis by (auto simp: scrape_forum_def)
qed

theorem pagination_terminates_witness:
  "index_links demo_env demo_self 0 = [demo_d1, demo_d2]
   \<and> fst (get_page_content demo_env demo_self (index_url demo_self 1)) = Inr (Some demo_index1)
   \<and> fst (get_discussion_links demo_env demo_self demo_index1) = Inr []
   \<and> (\<exists>d evs. scrape_forum demo_env demo_self = Some (Inr d, evs)
         \<and> requests evs = [index_url demo_self 0, demo_d1, demo_d2, index_url demo_self 1]
         \<and> length (requests evs) = 4)"
proof -
  have a: "index_links demo_env demo_self 0 = [demo_d1, demo_d2]"
    by code_simp
  have g: "fst (get_page_content demo_env demo_self (index_url demo_self 1)) = Inr (Some demo_index1)"
    by code_simp
  have l: "fst (get_discussion_links demo_env demo_self demo_index1) = Inr []"
    by code_simp
  have h: "\<forall>k<1. index_links demo_env demo_self k \<noteq> []"
    using a by simp
  from pagination_terminates [OF h g l]
  obtain d evs where "scrape_forum demo_env demo_self = Some (Inr d, evs)"
    and "requests evs
               = concat (map (\<lambda>k. index_url demo_self k # index_links demo_env demo_self k) [0..<1])
                 @ [index_url demo_self 1]"
    by blast
  then have "scrape_forum demo_env demo_self = Some (Inr d, evs)
         \<and> requests evs = [index_url demo_self 0, demo_d1, demo_d2, index_url demo_self 1]
         \<and> length (requests evs) = 4"
    using a by simp
  with a g l show ?thesis by blast
qed

section \<open>Properties of the driver\<close>

text \<open>
  C10. In the loop of \<^verbatim>\<open>main\<close> that collects the forum URLs, a line that is not empty and
  starts with neither \<^verbatim>\<open>http://\<close> nor \<^verbatim>\<open>https://\<close> causes the prompt and one ERROR record and
  nothing else (no scraper is made, nothing is requested), and the loop goes on with
  the next line; an empty line leaves the loop with the dictionary built so far; and
  the loop is left in this way only when an empty line was typed.
\<close>

theorem invalid_url_is_rejected:
  "(forum_url \<noteq> [] \<and> \<not> startswith forum_url ''http://'' \<and> \<not> startswith forum_url ''https://''
      \<longrightarrow> forum_url_loop e moodle_session (forum_url # stdin) d
          = map_option
              (\<lambda>(r, ev). (r,
                 [Input url_prompt,
                  Log ERROR ''Invalid URL. Please enter a complete URL starting with http:// or https://'']
                 @ ev))
              (forum_url_loop e moodle_session stdin d))
   \<and> forum_url_loop e moodle_session ([] # stdin) d = Some (Inr d, [Input url_prompt])
   \<and> (forum_url_loop e moodle_session stdin d = Some (Inr d', evs) \<longrightarrow> [] \<in> set stdin)"
proof (intro conjI impI)
  assume "forum_url \<noteq> [] \<and> \<not> startswith forum_url ''http://'' \<and> \<not> startswith forum_url ''https://''"
  then show "forum_url_loop e moodle_session (forum_url # stdin) d
          = map_option
              (\<lambda>(r, ev). (r,
                 [Input url_prompt,
                  Log ERROR ''Invalid URL. Please enter a complete URL starting with http:// or https://'']
                 @ ev))
              (forum_url_loop e moodle_session stdin d)"
    by (cases "forum_url_loop e moodle_session stdin d") (auto simp del: startswith.simps)
next
  show "forum_url_loop e moodle_session ([] # stdin) d = Some (Inr d, [Input url_prompt])"
    by simp
next
  assume "forum_url_loop e moodle_session stdin d = Some (Inr d', evs)"
  then show "[] \<in> set stdin"
  proof (induction stdin arbitrary: d d' evs)
    case Nil
    then show ?case by simp
  next
    case (Cons u rest)
    show ?case
    proof (cases "u = []")
      case True
      then show ?thesis by simp
    next
      case False
      have "\<exists>d1 d2 ev. forum_url_loop e moodle_session rest d1 = Some (Inr d2, ev)"
        using Cons.prems False
        by (auto simp: Let_def bind_eq_Some_conv
                 split: if_splits prod.splits option.splits sum.splits
                 simp del: startswith.simps)
      then show ?thesis using Cons.IH by auto
    qed
  qed
qed

theorem invalid_url_is_rejected_witness:
  "''ftp://m/f'' \<noteq> []
   \<and> \<not> startswith ''ftp://m/f'' ''http://''
   \<and> \<not> startswith ''ftp://m/f'' ''https://''
   \<and> forum_url_loop demo_env ''s3cr3t'' [''ftp://m/f'', []] []
       = Some (Inr [],
               [Input url_prompt,
                Log ERROR ''Invalid URL. Please enter a complete URL starting with http:// or https://'',
                Input url_prompt])
   \<and> [] \<in> set [''ftp://m/f'', []]"
proof -
  have a: "''ftp://m/f'' \<noteq> [] \<and> \<not> startswith ''ftp://m/f'' ''http://''
           \<and> \<not> startswith ''ftp://m/f'' ''https://''"
    by simp
  note t = invalid_url_is_rejected [of "''ftp://m/f''" demo_env "''s3cr3t''" "[[]]" "[]"]
  have 1: "forum_url_loop demo_env ''s3cr3t'' (''ftp://m/f'' # [[]]) []
          = map_option
              (\<lambda>(r, ev). (r,
                 [Input url_prompt,
                  Log ERROR ''Invalid URL. Please enter a complete URL starting with http:// or https://'']
                 @ ev))
              (forum_url_loop demo_env ''s3cr3t'' [[]] [])"
    using t a by blast
  have 2: "forum_url_loop demo_env ''s3cr3t'' ([] # []) [] = Some (Inr [], [Input url_prompt])"
    using invalid_url_is_rejected [of _ demo_env "''s3cr3t''" "[]" "[]"] by blast
  have 3: "forum_url_loop demo_env ''s3cr3t'' [''ftp://m/f'', []] []
       = Some (Inr [],
               [Input url_prompt,
                Log ERROR ''Invalid URL. Please enter a complete URL starting with http:// or https://'',
                Input url_prompt])"
    using 1 2 by simp
  have 4: "[] \<in> set [''ftp://m/f'', []]"
    using invalid_url_is_rejected [of _ demo_env "''s3cr3t''" "[''ftp://m/f'', []]" "[]" "[]"] 3
    by blast
  from a 3 4 show ?thesis by blast
qed

section \<open>Properties of the exporter\<close>

text \<open>
  C2, as it is stated, fails. The file does not say where a field ends, so two
  different dictionaries can be written as the same text, and nothing that reads the
  file can give back both: a post whose content quotes an exported post is written as
  two posts are.
\<close>

theorem export_is_ambiguous:
  "save_to_file demo_env demo_self [(''u'', [quoting_post])] DEFAULT_OUTPUT_FILE
     = save_to_file demo_env demo_self [(''u'', [short_post, short_post])] DEFAULT_OUTPUT_FILE
   \<and> [(''u'', [quoting_post])] \<noteq> [(''u'', [short_post, short_post])]"
  by code_simp

text \<open>
  The same happens with a line break in a title, in an author, in a date or in a URL:
  each of them can hold the rest of its block and the beginning of the next one.
\<close>

lemma line_breaks_are_ambiguous:
  "file_text [(''u'', [short_post\<lparr>title := drop 7 (post_text short_post) @ ''Title: t''\<rparr>])]
     = file_text [(''u'', [short_post, short_post])]
   \<and> file_text [(''u'', [short_post\<lparr>author := drop 17 (post_text short_post)
                                              @ ''Title: t'' @ newline @ ''Author: a''\<rparr>])]
     = file_text [(''u'', [short_post, short_post])]
   \<and> file_text [(''u'', [short_post\<lparr>date := drop 25 (post_text short_post)
                                            @ ''Title: t'' @ newline @ ''Author: a'' @ newline
                                            @ ''Date: d''\<rparr>])]
     = file_text [(''u'', [short_post, short_post])]
   \<and> file_text [(''u'' @ newline @ replicate 80 CHR ''='' @ newline @ newline @ newline
                  @ replicate 80 CHR ''='' @ newline @ ''Discussion URL: v'', [short_post])]
     = file_text [(''u'', []), (''v'', [short_post])]"
  by code_simp

lemma startswith_append: "startswith (p @ b) p"
  by (induction p) simp_all

lemma contains_intro: "contains (a @ p @ b) p"
proof (induction a)
  case Nil
  show ?case
  proof (cases "p @ b")
    case Nil
    then show ?thesis by simp
  next
    case (Cons x xs)
    have "startswith (p @ b) p" by (rule startswith_append)
    with Cons show ?thesis by simp
  qed
next
  case (Cons x a)
  then show ?case by simp
qed

lemma separator_shift:
  assumes "us \<noteq> []" and "us @ T @ X = T @ Y"
  shows "contains (butlast (c @ us @ T)) T"
proof -
  from assms(2) have "(us @ T) @ X = T @ Y" by simp
  then obtain vs where "us @ T = T @ vs \<and> vs @ X = Y \<or> (us @ T) @ vs = T \<and> X = vs @ Y"
    unfolding append_eq_append_conv2 by blast
  then show ?thesis
  proof
    assume a: "us @ T = T @ vs \<and> vs @ X = Y"
    then have "length (us @ T) = length (T @ vs)" by simp
    with assms(1) have vs: "vs \<noteq> []" by auto
    have "butlast (c @ us @ T) = butlast (c @ T @ vs)" using a by simp
    also have "\<dots> = c @ T @ butlast vs" using vs by (simp add: butlast_append)
    finally show ?thesis by (simp add: contains_intro)
  next
    assume "(us @ T) @ vs = T \<and> X = vs @ Y"
    then have "length ((us @ T) @ vs) = length T" by simp
    with assms(1) show ?thesis by auto
  qed
qed

lemma content_inj:
  assumes "separator_free c1" and "separator_free c2"
      and eq: "c1 @ post_separator @ X = c2 @ post_separator @ Y"
  shows "c1 = c2 \<and> X = Y"
proof -
  let ?T = "post_separator"
  from eq obtain us where
    "c1 = c2 @ us \<and> us @ ?T @ X = ?T @ Y \<or> c1 @ us = c2 \<and> ?T @ X = us @ ?T @ Y"
    unfolding append_eq_append_conv2 by blast
  then show ?thesis
  proof
    assume a: "c1 = c2 @ us \<and> us @ ?T @ X = ?T @ Y"
    show ?thesis
    proof (cases "us = []")
      case True
      with a show ?thesis by simp
    next
      case False
      from separator_shift [OF False, of ?T X Y c2] a
      have "contains (butlast (c1 @ ?T)) ?T" by simp
      with assms(1) show ?thesis by (simp add: separator_free_def)
    qed
  next
    assume a: "c1 @ us = c2 \<and> ?T @ X = us @ ?T @ Y"
    show ?thesis
    proof (cases "us = []")
      case True
      with a show ?thesis by simp
    next
      case False
      from a have "us @ ?T @ Y = ?T @ X" by simp
      from separator_shift [OF False this, of c1] a
      have "contains (butlast (c2 @ ?T)) ?T" by auto
      with assms(2) show ?thesis by (simp add: separator_free_def)
    qed
  qed
qed

lemma split_line:
  "CHR 0x0A \<notin> set a \<Longrightarrow> CHR 0x0A \<notin> set b \<Longrightarrow> a @ CHR 0x0A # r = b @ CHR 0x0A # s
   \<Longrightarrow> a = b \<and> r = s"
proof (induction a arbitrary: b)
  case Nil
  then show ?case by (cases b) auto
next
  case (Cons x a)
  then show ?case by (cases b) auto
qed

lemma post_text_inj:
  assumes p: "readable_post p" and q: "readable_post q"
      and eq: "post_text p @ R = post_text q @ S"
  shows "p = q \<and> R = S"
proof -
  let ?nl = "CHR 0x0A"
  let ?c = "\<lambda>p R. content p @ post_separator @ R"
  let ?d = "\<lambda>p R. date p @ ?nl # (''Content:'' @ ?nl # ?c p R)"
  let ?a = "\<lambda>p R. author p @ ?nl # (''Date: '' @ ?d p R)"
  let ?t = "\<lambda>p R. title p @ ?nl # (''Author: '' @ ?a p R)"
  have shape: "post_text x @ X = ''Title: '' @ ?t x X" for x X
    by (simp add: post_text_def post_separator_def newline_def)
  from eq have "?t p R = ?t q S"
    by (simp only: shape same_append_eq)
  from split_line [OF _ _ this] p q
  have t: "title p = title q" and 1: "''Author: '' @ ?a p R = ''Author: '' @ ?a q S"
    by (simp_all add: readable_post_def no_newline_def)
  from 1 have "?a p R = ?a q S" by (simp only: same_append_eq)
  from split_line [OF _ _ this] p q
  have a: "author p = author q" and 2: "''Date: '' @ ?d p R = ''Date: '' @ ?d q S"
    by (simp_all add: readable_post_def no_newline_def)
  from 2 have "?d p R = ?d q S" by (simp only: same_append_eq)
  from split_line [OF _ _ this] p q
  have d: "date p = date q" and 3: "''Content:'' @ ?nl # ?c p R = ''Content:'' @ ?nl # ?c q S"
    by (simp_all add: readable_post_def no_newline_def)
  from 3 have "?c p R = ?c q S" by simp
  from content_inj [OF _ _ this] p q
  have c: "content p = content q" and "R = S"
    by (simp_all add: readable_post_def)
  with t a d show ?thesis by simp
qed

lemma post_text_T: "post_text p @ X = CHR ''T'' # tl (post_text p @ X)"
  by (simp add: post_text_def)

lemma posts_text_inj:
  "list_all readable_post ps \<Longrightarrow> list_all readable_post qs \<Longrightarrow> no_T R \<Longrightarrow> no_T S
   \<Longrightarrow> concat (map post_text ps) @ R = concat (map post_text qs) @ S
   \<Longrightarrow> ps = qs \<and> R = S"
proof (induction ps arbitrary: qs)
  case Nil
  show ?case
  proof (cases qs)
    case Nil
    with Nil.prems show ?thesis by simp
  next
    case (Cons q qs')
    with Nil.prems have "R = CHR ''T'' # tl (post_text q @ concat (map post_text qs') @ S)"
      using post_text_T [of q "concat (map post_text qs') @ S"] by simp
    with Nil.prems(3) show ?thesis by (simp add: no_T_def)
  qed
next
  case (Cons p ps)
  show ?case
  proof (cases qs)
    case Nil
    with Cons.prems have "S = CHR ''T'' # tl (post_text p @ concat (map post_text ps) @ R)"
      using post_text_T [of p "concat (map post_text ps) @ R"] by simp
    with Cons.prems(4) show ?thesis by (simp add: no_T_def)
  next
    case (Cons q qs')
    with Cons.prems have "post_text p @ (concat (map post_text ps) @ R)
        = post_text q @ (concat (map post_text qs') @ S)"
      by simp
    from post_text_inj [OF _ _ this] Cons.prems Cons
    have "p = q" and "concat (map post_text ps) @ R = concat (map post_text qs') @ S"
      by simp_all
    with Cons.IH [of qs'] Cons.prems Cons show ?thesis by simp
  qed
qed

lemma file_text_no_T: "no_T (file_text d)"
  by (cases d) (simp_all add: file_text_def discussion_text_def newline_def no_T_def)

lemma discussion_text_inj:
  assumes "no_newline u" and "no_newline v"
      and "list_all readable_post ps" and "list_all readable_post qs"
      and "no_T R" and "no_T S"
      and eq: "discussion_text (u, ps) @ R = discussion_text (v, qs) @ S"
  shows "u = v \<and> ps = qs \<and> R = S"
proof -
  let ?nl = "CHR 0x0A"
  let ?bar = "replicate 80 CHR ''=''"
  let ?rest = "\<lambda>ps R. ?bar @ ?nl # ?nl # (concat (map post_text ps) @ R)"
  have shape: "discussion_text (x, xs) @ X
      = (?nl # ?bar) @ (?nl # ''Discussion URL: '') @ (x @ ?nl # ?rest xs X)" for x xs X
    by (simp add: discussion_text_def newline_def)
  from eq have "u @ ?nl # ?rest ps R = v @ ?nl # ?rest qs S"
    by (simp only: shape same_append_eq)
  from split_line [OF _ _ this] assms(1,2)
  have u: "u = v" and "?rest ps R = ?rest qs S"
    by (simp_all add: no_newline_def)
  then have "concat (map post_text ps) @ R = concat (map post_text qs) @ S"
    by simp
  from posts_text_inj [OF assms(3,4,5,6) this] u show ?thesis by simp
qed

lemma file_text_Cons: "file_text (x # d) = discussion_text x @ file_text d"
  by (simp add: file_text_def)

lemma discussion_text_not_Nil: "discussion_text x @ X \<noteq> []"
  by (simp add: discussion_text_def newline_def)

lemma file_text_inj:
  "readable_discussions d1 \<Longrightarrow> readable_discussions d2 \<Longrightarrow> file_text d1 = file_text d2 \<Longrightarrow> d1 = d2"
proof (induction d1 arbitrary: d2)
  case Nil
  show ?case
  proof (cases d2)
    case Nil
    then show ?thesis by simp
  next
    case (Cons y d2')
    have "file_text [] = []" by (simp add: file_text_def)
    with Nil.prems(3) Cons have "discussion_text y @ file_text d2' = []"
      by (simp add: file_text_Cons)
    with discussion_text_not_Nil show ?thesis by blast
  qed
next
  case (Cons x d1)
  show ?case
  proof (cases d2)
    case Nil
    have "file_text [] = []" by (simp add: file_text_def)
    with Cons.prems(3) Nil have "discussion_text x @ file_text d1 = []"
      by (simp add: file_text_Cons)
    with discussion_text_not_Nil show ?thesis by blast
  next
    case (Cons y d2')
    obtain u ps where x: "x = (u, ps)" by (cases x)
    obtain v qs where y: "y = (v, qs)" by (cases y)
    from Cons.prems Cons x y
    have eq: "discussion_text (u, ps) @ file_text d1 = discussion_text (v, qs) @ file_text d2'"
      by (simp add: file_text_Cons)
    have pl: "no_newline u" "no_newline v" "list_all readable_post ps" "list_all readable_post qs"
      "readable_discussions d1" "readable_discussions d2'"
      using Cons.prems Cons x y by (simp_all add: readable_discussions_def)
    from discussion_text_inj [OF pl(1-4) file_text_no_T file_text_no_T eq]
    have "u = v" "ps = qs" "file_text d1 = file_text d2'" by simp_all
    with Cons.IH [OF pl(5,6)] Cons x y show ?thesis by simp
  qed
qed

text \<open>
  C2, amended. Among the dictionaries in which no URL, title, author or date contains
  a line break and no content contains the separator that is written after it (an
  empty line, 40 dashes, an empty line) or ends in a beginning of it, the text written
  by \<^verbatim>\<open>save_to_file\<close> determines the dictionary: the discussions with their URLs in
  order, and the posts of each with their title, author, date and content in order.
  The content may have line breaks and empty lines.
\<close>

theorem file_text_determines_discussions:
  assumes "readable_discussions d1" and "readable_discussions d2"
      and "save_to_file e self d1 output_file = save_to_file e self d2 output_file"
  shows "d1 = d2"
proof -
  from assms(3) have "file_text d1 = file_text d2"
    by (simp add: save_to_file_def)
  with assms(1,2) show ?thesis by (rule file_text_inj)
qed

theorem file_text_determines_discussions_witness:
  "readable_discussions [(''u'', [short_post, long_post])]
   \<and> readable_discussions [(''u'', [short_post]), (''v'', [long_post])]
   \<and> [(''u'', [short_post, long_post])] \<noteq> [(''u'', [short_post]), (''v'', [long_post])]
   \<and> save_to_file demo_env demo_self [(''u'', [short_post, long_post])] DEFAULT_OUTPUT_FILE
       \<noteq> save_to_file demo_env demo_self [(''u'', [short_post]), (''v'', [long_post])]
            DEFAULT_OUTPUT_FILE"
proof -
  have a: "readable_discussions [(''u'', [short_post, long_post])]" by code_simp
  have b: "readable_discussions [(''u'', [short_post]), (''v'', [long_post])]" by code_simp
  have c: "[(''u'', [short_post, long_post])] \<noteq> [(''u'', [short_post]), (''v'', [long_post])]"
    by simp
  from file_text_determines_discussions [OF a b, of demo_env demo_self DEFAULT_OUTPUT_FILE] c
  have "save_to_file demo_env demo_self [(''u'', [short_post, long_post])] DEFAULT_OUTPUT_FILE
       \<noteq> save_to_file demo_env demo_self [(''u'', [short_post]), (''v'', [long_post])]
            DEFAULT_OUTPUT_FILE"
    by blast
  with a b c show ?thesis by blast
qed

end
